theory Spec2Isabelle
  imports Main "HOL-Library.Word"
begin

unbundle bit_operations_syntax

section \<open>Values exchanged with the chain\<close>

type_synonym byte = "8 word"

text \<open>A JavaScript \<open>Error\<close> object (or a rejection value of the connectivity layer),
  identified by its message.\<close>

datatype error = Error string

text \<open>The transaction request built in \<open>submitTx\<close>: \<open>{ to, data, gasPrice }\<close>. The
  call data is the \<open>0x\<close>-prefixed hex string returned by \<open>generateFunctionData\<close>; the
  gas price is a \<open>BigNumber\<close>, an unbounded integer.\<close>

record tx =
  to :: string
  data :: string
  gasPrice :: int

record wallet =
  privateKey :: "byte list"

text \<open>The response handle of a broadcast transaction; the script only prints it.\<close>

datatype txresponse = TxResponse string

section \<open>Bytes, hex strings and text\<close>

text \<open>\<open>ethers.utils.hexlify\<close> on a byte array: \<open>0x\<close> and two lower-case digits for
  each byte.\<close>

definition hexDigit :: "nat \<Rightarrow> char" where
  "hexDigit n = ''0123456789abcdef'' ! (n mod 16)"

definition hexByte :: "byte \<Rightarrow> string" where
  "hexByte b = [hexDigit (unat b div 16), hexDigit (unat b mod 16)]"

definition hexlify :: "byte list \<Rightarrow> string" where
  "hexlify bs = ''0x'' @ concat (map hexByte bs)"

definition isHexDigit :: "char \<Rightarrow> bool" where
  "isHexDigit c =
     (let n = (of_char c :: nat) in
      (48 \<le> n \<and> n \<le> 57) \<or> (97 \<le> n \<and> n \<le> 102) \<or> (65 \<le> n \<and> n \<le> 70))"

definition digitVal :: "char \<Rightarrow> nat" where
  "digitVal c =
     (let n = (of_char c :: nat) in
      if n \<le> 57 then n - 48 else if 97 \<le> n then n - 87 else n - 55)"

fun hexPairs :: "string \<Rightarrow> byte list" where
  "hexPairs (h # l # cs) = of_nat (digitVal h * 16 + digitVal l) # hexPairs cs"
| "hexPairs _ = []"

text \<open>\<open>ethers.utils.arrayify\<close> on a string: the string must match \<open>0x[0-9A-Fa-f]*\<close>
  and hold an even number of digits; anything else throws.\<close>

definition arrayify :: "string \<Rightarrow> error + byte list" where
  "arrayify v =
     (if take 2 v = ''0x'' \<and> list_all isHexDigit (drop 2 v) then
        (if odd (length (drop 2 v)) then Inl (Error ''hex data is odd-length'')
         else Inr (hexPairs (drop 2 v)))
      else Inl (Error ''invalid arrayify value''))"

text \<open>\<open>ethers.utils.toUtf8Bytes\<close>. A \<open>char\<close> is a code point below 256: one byte below
  128, two bytes from there on.\<close>

definition utf8Char :: "char \<Rightarrow> byte list" where
  "utf8Char c =
     (let n = (of_char c :: nat) in
      if n < 128 then [of_nat n] else [of_nat (192 + n div 64), of_nat (128 + n mod 64)])"

definition toUtf8Bytes :: "string \<Rightarrow> byte list" where
  "toUtf8Bytes str = concat (map utf8Char str)"

text \<open>\<open>String(n)\<close> for a length: its decimal digits.\<close>

fun decimal :: "nat \<Rightarrow> string" where
  "decimal n = (if n < 10 then [hexDigit n] else decimal (n div 10) @ [hexDigit (n mod 10)])"

text \<open>A big-endian field of \<open>n\<close> bytes.\<close>

primrec be_bytes :: "nat \<Rightarrow> nat \<Rightarrow> byte list" where
  "be_bytes 0 x = []"
| "be_bytes (Suc n) x = be_bytes n (x div 256) @ [of_nat (x mod 256)]"

section \<open>The signing and encoding library\<close>

text \<open>
  The script calls the \<open>ethers\<close> library and the JavaScript runtime for hashing,
  signing, address derivation and \<open>JSON.stringify\<close>. The primitives are parameters of
  the model: \<open>keccak\<close> is the raw Keccak-256 function, \<open>ecdsa key digest\<close> the
  secp256k1 signature \<open>(r, s, recoveryParam)\<close> of a 32-byte digest, \<open>computeAddress\<close>
  the address of a private key, \<open>newWallet\<close> the constructor \<open>new ethers.Wallet(key,
  provider)\<close>, which throws on a key it refuses.
\<close>

record lib =
  keccak :: "byte list \<Rightarrow> byte list"
  ecdsa :: "byte list \<Rightarrow> byte list \<Rightarrow> 256 word \<times> 256 word \<times> bool"
  computeAddress :: "byte list \<Rightarrow> 160 word"
  newWallet :: "string \<Rightarrow> error + wallet"
  stringify_tx :: "txresponse \<Rightarrow> string"
  stringify_err :: "error \<Rightarrow> string"

text \<open>\<open>ethers.utils.keccak256\<close> returns the digest as a hex string.\<close>

definition keccak256 :: "lib \<Rightarrow> byte list \<Rightarrow> string" where
  "keccak256 E bs = hexlify (keccak E bs)"

text \<open>Modelled from the spec: \<open>signMessage\<close> of the wallet library is not under src/.
  Section 4.1 and the glossary describe it: the scheme prepends a fixed preamble to the
  message before hashing and signing. The preamble is the one of Ethereum signed
  messages, followed by the decimal length of the message. A message given as a string
  is taken as its UTF-8 bytes (the comment in \<open>generateSignature\<close>), one given as bytes
  is taken as it is.\<close>

datatype message = Text string | Raw "byte list"

definition messagePrefix :: string where
  "messagePrefix = CHR 0x19 # ''Ethereum Signed Message:'' @ [CHR 0x0A]"

definition hashMessage :: "lib \<Rightarrow> message \<Rightarrow> string" where
  "hashMessage E m =
     (let bs = (case m of Text t \<Rightarrow> toUtf8Bytes t | Raw b \<Rightarrow> b) in
      keccak256 E (toUtf8Bytes messagePrefix @ toUtf8Bytes (decimal (length bs)) @ bs))"

text \<open>Modelled from the spec: \<open>signDigest\<close>, \<open>joinSignature\<close> and \<open>splitSignature\<close> of
  the wallet library are not under src/. Section 3 gives the two encodings of a
  signature: extended, 65 bytes \<open>r, s, v\<close>, and compact, 64 bytes, with the recovery
  parity bit packed into the high bit of the second 32-byte component (section 4.1).\<close>

definition signDigest :: "lib \<Rightarrow> wallet \<Rightarrow> string \<Rightarrow> error + 256 word \<times> 256 word \<times> bool" where
  "signDigest E signer digest =
     (case arrayify digest of
        Inl e \<Rightarrow> Inl e
      | Inr d \<Rightarrow>
          if length d \<noteq> 32 then Inl (Error ''bad digest length'')
          else Inr (ecdsa E (privateKey signer) d))"

definition joinSignature :: "256 word \<times> 256 word \<times> bool \<Rightarrow> string" where
  "joinSignature sg =
     (case sg of (r, s, recoveryParam) \<Rightarrow>
        hexlify (be_bytes 32 (unat r) @ be_bytes 32 (unat s) @
                 [if recoveryParam then 0x1c else 0x1b]))"

definition signMessage :: "lib \<Rightarrow> wallet \<Rightarrow> message \<Rightarrow> error + string" where
  "signMessage E signer m =
     (case signDigest E signer (hashMessage E m) of
        Inl e \<Rightarrow> Inl e
      | Inr sg \<Rightarrow> Inr (joinSignature sg))"

record split_signature =
  sig_r :: string
  sig_s :: string
  sig_v :: nat
  recoveryParam :: nat
  sig_vs :: string
  compact :: string

definition splitSignature :: "string \<Rightarrow> error + split_signature" where
  "splitSignature signature =
     (case arrayify signature of
        Inl e \<Rightarrow> Inl e
      | Inr bytes \<Rightarrow>
          if length bytes \<noteq> 64 \<and> length bytes \<noteq> 65 then Inl (Error ''invalid signature string'')
          else
            let v0 = (if length bytes = 64 then 27 + unat (drop_bit 7 (bytes ! 32))
                      else unat (bytes ! 64));
                bytes1 = (if length bytes = 64 then bytes[32 := (bytes ! 32) AND 0x7f] else bytes);
                r = hexlify (take 32 bytes1);
                s = hexlify (take 32 (drop 32 bytes1))
            in
              if v0 < 27 \<and> v0 \<noteq> 0 \<and> v0 \<noteq> 1 then Inl (Error ''signature invalid v byte'')
              else
                let v = (if v0 < 27 then v0 + 27 else v0);
                    rp = 1 - v mod 2;
                    bytes2 = (if rp \<noteq> 0 then bytes1[32 := (bytes1 ! 32) OR 0x80] else bytes1);
                    vs = hexlify (take 32 (drop 32 bytes2))
                in Inr \<lparr>sig_r = r, sig_s = s, sig_v = v, recoveryParam = rp, sig_vs = vs,
                         compact = r @ drop 2 vs\<rparr>)"

definition getAddress :: "lib \<Rightarrow> wallet \<Rightarrow> 160 word" where
  "getAddress E signer = computeAddress E (privateKey signer)"

subsection \<open>Call encoding\<close>

text \<open>The parameter types of the contract's functions and the arguments the script
  passes: a string, a byte array, an address.\<close>

datatype abi_type = TString | TBytes | TAddress

datatype arg = Str string | Bytes "byte list" | Address "160 word"

text \<open>Modelled from the spec: the interface description \<open>Bounty.json\<close> is not under
  src/. Section 6 lists the three callable functions of the deployed contract.\<close>

definition Bounty :: "(string \<times> abi_type list) list" where
  "Bounty =
     [(''solveChallenge1'', [TString]),
      (''solveChallenge2'', [TString, TBytes]),
      (''solveChallenge3'', [TString, TAddress, TBytes])]"

text \<open>Modelled from the spec: \<open>encodeFunctionData\<close> of the library is not under src/.
  Section 4.2: a 4-byte selector derived from the function's canonical signature,
  followed by the fixed or dynamic encoding of each argument; a mismatched argument count
  or type is an encoding-time failure. The layout is the contract ABI's: one 32-byte head
  per argument (the value of a static argument, the offset of the tail of a dynamic one),
  then the tails, each a 32-byte length and the bytes padded with zeros to a multiple of
  32.\<close>

fun type_name :: "abi_type \<Rightarrow> string" where
  "type_name TString = ''string''"
| "type_name TBytes = ''bytes''"
| "type_name TAddress = ''address''"

fun join_comma :: "string list \<Rightarrow> string" where
  "join_comma [] = []"
| "join_comma [x] = x"
| "join_comma (x # y # ys) = x @ '','' @ join_comma (y # ys)"

definition canonical :: "string \<Rightarrow> abi_type list \<Rightarrow> string" where
  "canonical name tys = name @ ''('' @ join_comma (map type_name tys) @ '')''"

definition selector :: "lib \<Rightarrow> string \<Rightarrow> abi_type list \<Rightarrow> byte list" where
  "selector E name tys = take 4 (keccak E (toUtf8Bytes (canonical name tys)))"

definition pad32 :: "byte list \<Rightarrow> byte list" where
  "pad32 bs = bs @ replicate ((32 - length bs mod 32) mod 32) 0"

definition encode_dynamic :: "byte list \<Rightarrow> byte list" where
  "encode_dynamic bs = be_bytes 32 (length bs) @ pad32 bs"

text \<open>The encoding of one argument, and whether it is dynamic.\<close>

fun encode_arg :: "abi_type \<Rightarrow> arg \<Rightarrow> error + bool \<times> byte list" where
  "encode_arg TString (Str v) = Inr (True, encode_dynamic (toUtf8Bytes v))"
| "encode_arg TBytes (Bytes b) = Inr (True, encode_dynamic b)"
| "encode_arg TAddress (Address a) = Inr (False, be_bytes 32 (unat a))"
| "encode_arg _ _ = Inl (Error ''invalid argument'')"

fun encode_args :: "abi_type list \<Rightarrow> arg list \<Rightarrow> error + (bool \<times> byte list) list" where
  "encode_args (t # ts) (a # as) =
     (case encode_arg t a of
        Inl e \<Rightarrow> Inl e
      | Inr x \<Rightarrow> (case encode_args ts as of Inl e \<Rightarrow> Inl e | Inr xs \<Rightarrow> Inr (x # xs)))"
| "encode_args _ _ = Inr []"

fun heads_tails :: "nat \<Rightarrow> (bool \<times> byte list) list \<Rightarrow> byte list \<times> byte list" where
  "heads_tails off [] = ([], [])"
| "heads_tails off ((dyn, bs) # xs) =
     (if dyn then
        (case heads_tails (off + length bs) xs of (h, t) \<Rightarrow> (be_bytes 32 off @ h, bs @ t))
      else
        (case heads_tails off xs of (h, t) \<Rightarrow> (bs @ h, t)))"

definition abi_pack :: "(bool \<times> byte list) list \<Rightarrow> byte list" where
  "abi_pack xs = (case heads_tails (32 * length xs) xs of (h, t) \<Rightarrow> h @ t)"

definition encodeFunctionData ::
  "lib \<Rightarrow> (string \<times> abi_type list) list \<Rightarrow> string \<Rightarrow> arg list \<Rightarrow> error + string" where
  "encodeFunctionData E abi fragment arguments =
     (case map_of abi fragment of
        None \<Rightarrow> Inl (Error ''no matching function'')
      | Some tys \<Rightarrow>
          if length tys \<noteq> length arguments then Inl (Error ''types/values length mismatch'')
          else
            (case encode_args tys arguments of
               Inl e \<Rightarrow> Inl e
             | Inr xs \<Rightarrow> Inr (hexlify (selector E fragment tys @ abi_pack xs))))"

section \<open>Promises\<close>

text \<open>
  An \<open>async\<close> function body is a tree of effects. \<open>Return\<close> is a promise fulfilled
  (every function of the script fulfils with \<open>undefined\<close>), \<open>Throw e\<close> one rejected with
  \<open>e\<close>. \<open>Log\<close> is \<open>console.log\<close>, \<open>LogError\<close> is \<open>console.error\<close>. The three network
  calls suspend the body until the node answers; the continuation receives the answer,
  \<open>Inl\<close> when the call's promise rejects. \<open>Detach d p\<close> is a call \<open>d\<close> that returns a
  promise which the body neither awaits nor returns: \<open>d\<close> is started and the body goes on
  with \<open>p\<close> at once.
\<close>

datatype proc =
    Return
  | Throw error
  | Log string proc
  | LogError string proc
  | GetGasPrice "error + int \<Rightarrow> proc"
  | EstimateGas wallet tx "error + int \<Rightarrow> proc"
  | SendTransaction wallet tx "error + txresponse \<Rightarrow> proc"
  | Detach proc proc

text \<open>\<open>p.then(() => q)\<close>: \<open>q\<close> runs once \<open>p\<close> is fulfilled; a rejection of \<open>p\<close> passes
  through. A promise detached inside \<open>p\<close> is not part of the chain.\<close>

primrec then_do :: "proc \<Rightarrow> proc \<Rightarrow> proc" where
  "then_do Return q = q"
| "then_do (Throw e) q = Throw e"
| "then_do (Log s p) q = Log s (then_do p q)"
| "then_do (LogError s p) q = LogError s (then_do p q)"
| "then_do (GetGasPrice k) q = GetGasPrice (\<lambda>r. then_do (k r) q)"
| "then_do (EstimateGas w t k) q = EstimateGas w t (\<lambda>r. then_do (k r) q)"
| "then_do (SendTransaction w t k) q = SendTransaction w t (\<lambda>r. then_do (k r) q)"
| "then_do (Detach d p) q = Detach d (then_do p q)"

text \<open>\<open>p.catch((err) => h err)\<close>: the handler runs on the rejection of \<open>p\<close>.\<close>

primrec catch_with :: "proc \<Rightarrow> (error \<Rightarrow> proc) \<Rightarrow> proc" where
  "catch_with Return h = Return"
| "catch_with (Throw e) h = h e"
| "catch_with (Log s p) h = Log s (catch_with p h)"
| "catch_with (LogError s p) h = LogError s (catch_with p h)"
| "catch_with (GetGasPrice k) h = GetGasPrice (\<lambda>r. catch_with (k r) h)"
| "catch_with (EstimateGas w t k) h = EstimateGas w t (\<lambda>r. catch_with (k r) h)"
| "catch_with (SendTransaction w t k) h = SendTransaction w t (\<lambda>r. catch_with (k r) h)"
| "catch_with (Detach d p) h = Detach d (catch_with p h)"

section \<open>The event loop\<close>

text \<open>What a run shows: the two output streams and the calls of the library's network
  functions (\<open>Call r\<close>: the script calls the function that sends \<open>r\<close> to the node),
  each tagged with the thread that produced it. Thread 0 is the awaited chain of the
  entry point; every detached promise chain gets the next free number. Between two
  suspensions a thread runs without interruption, as JavaScript runs a job to completion;
  the order in which the node answers the pending requests is free.\<close>

datatype request =
    GetGasPriceReq
  | EstimateGasReq wallet tx
  | SendTransactionReq wallet tx

datatype action = Stdout string | Stderr string | Call request

type_synonym event = "nat \<times> action"

text \<open>An answer of the node to a pending request.\<close>

datatype reply =
    GasPrice "error + int"
  | GasEstimate "error + int"
  | Sent "error + txresponse"

text \<open>\<open>advance i n p\<close> runs thread \<open>i\<close> until it is suspended on the network or settled;
  \<open>n\<close> is the next free thread number. It returns the events, the detached threads (each
  already run up to its own first suspension) and what is left of \<open>p\<close>.\<close>

primrec advance :: "nat \<Rightarrow> nat \<Rightarrow> proc \<Rightarrow> event list \<times> proc list \<times> proc" where
  "advance i n Return = ([], [], Return)"
| "advance i n (Throw e) = ([], [], Throw e)"
| "advance i n (Log s p) =
     (case advance i n p of (evs, kids, p') \<Rightarrow> ((i, Stdout s) # evs, kids, p'))"
| "advance i n (LogError s p) =
     (case advance i n p of (evs, kids, p') \<Rightarrow> ((i, Stderr s) # evs, kids, p'))"
| "advance i n (GetGasPrice k) = ([(i, Call GetGasPriceReq)], [], GetGasPrice k)"
| "advance i n (EstimateGas w t k) = ([(i, Call (EstimateGasReq w t))], [], EstimateGas w t k)"
| "advance i n (SendTransaction w t k) =
     ([(i, Call (SendTransactionReq w t))], [], SendTransaction w t k)"
| "advance i n (Detach d p) =
     (case advance n (Suc n) d of (evs1, kids1, d') \<Rightarrow>
        (case advance i (Suc n + length kids1) p of (evs2, kids2, p') \<Rightarrow>
           (evs1 @ evs2, d' # kids1 @ kids2, p')))"

text \<open>A suspended thread takes the answer to the request it is waiting for.\<close>

fun resume :: "proc \<Rightarrow> reply \<Rightarrow> proc option" where
  "resume (GetGasPrice k) (GasPrice r) = Some (k r)"
| "resume (EstimateGas w t k) (GasEstimate r) = Some (k r)"
| "resume (SendTransaction w t k) (Sent r) = Some (k r)"
| "resume _ _ = None"

text \<open>The state of a run: the threads and the events so far.\<close>

type_synonym state = "proc list \<times> event list"

definition start :: "proc \<Rightarrow> state" where
  "start p = (case advance 0 1 p of (evs, kids, p') \<Rightarrow> (p' # kids, evs))"

text \<open>The script puts no handler on a detached chain, so the rejection of one is an
  unhandled rejection, on which the host ends the process (the default of Node since
  version 15): nothing runs any more. Thread 0 is the promise the run is started with;
  what its holder does with a rejection of it is not part of the run.\<close>

fun rejected :: "proc \<Rightarrow> bool" where
  "rejected (Throw e) = True"
| "rejected _ = False"

definition ended :: "state \<Rightarrow> bool" where
  "ended st = list_ex rejected (tl (fst st))"

text \<open>One turn of the event loop: the node answers thread \<open>i\<close> with \<open>r\<close>. An answer no
  thread is waiting for changes nothing, and so does any answer once the process has
  ended.\<close>

fun step :: "nat \<times> reply \<Rightarrow> state \<Rightarrow> state" where
  "step (i, r) (pool, tr) =
     (if ended (pool, tr) then (pool, tr)
      else if i < length pool then
        (case resume (pool ! i) r of
           None \<Rightarrow> (pool, tr)
         | Some p \<Rightarrow>
            (case advance i (length pool) p of (evs, kids, p') \<Rightarrow>
               (pool[i := p'] @ kids, tr @ evs)))
      else (pool, tr))"

fun run :: "(nat \<times> reply) list \<Rightarrow> state \<Rightarrow> state" where
  "run [] st = st"
| "run (l # ls) st = run ls (step l st)"

section \<open>The script\<close>

definition contractAddress :: string where
  "contractAddress = ''0xc1e40f9FD2bc36150e2711e92138381982988791''"

definition generateSignature :: "lib \<Rightarrow> string \<Rightarrow> wallet \<Rightarrow> error + string" where
  "generateSignature E v signer =
     (let hashed = keccak256 E (toUtf8Bytes v) in
      case arrayify hashed of
        Inl e \<Rightarrow> Inl e
      | Inr digest \<Rightarrow> signMessage E signer (Raw digest))"

definition generateFunctionData :: "lib \<Rightarrow> string \<Rightarrow> arg list \<Rightarrow> error + string" where
  "generateFunctionData E fragment arguments = encodeFunctionData E Bounty fragment arguments"

text \<open>\<open>submitTx\<close> awaits the gas price. The chain \<open>signer.estimateGas(tx).then(...)\<close> is
  a statement of its own: its promise is neither awaited nor returned, so the body ends
  right after starting it. \<open>Number(gasLimit) <= 0\<close> on a \<open>BigNumber\<close> compares its
  integer value with 0.\<close>

definition submitTx :: "lib \<Rightarrow> string \<Rightarrow> wallet \<Rightarrow> proc" where
  "submitTx E d signer =
     GetGasPrice (\<lambda>g.
       case g of
         Inl e \<Rightarrow> Throw e
       | Inr price \<Rightarrow>
           let t = \<lparr>to = contractAddress, data = d, gasPrice = price\<rparr> in
           Detach
             (EstimateGas signer t (\<lambda>est.
                case est of
                  Inl e \<Rightarrow> Throw e
                | Inr gasLimit \<Rightarrow>
                    if gasLimit \<le> 0 then Throw (Error ''Unable to simulation gas for transaction.'')
                    else
                      Log ''sending tx ...''
                        (Log (''data: '' @ d)
                           (SendTransaction signer t (\<lambda>res.
                              case res of
                                Inl e \<Rightarrow> Throw e
                              | Inr txn \<Rightarrow>
                                  Log (''tx response: '' @ stringify_tx E txn) Return)))))
             Return)"

definition challenge1 :: "lib \<Rightarrow> wallet \<Rightarrow> proc" where
  "challenge1 E signer =
     (let answer = ''faucet'' in
      Log (''solving challenge 1 with answer: '' @ answer)
        (case generateFunctionData E ''solveChallenge1'' [Str answer] of
           Inl e \<Rightarrow> Throw e
         | Inr d \<Rightarrow>
             then_do (submitTx E d signer) (Log (''challenge 1 completed.'' @ [CHR 0x0A]) Return)))"

definition challenge2 :: "lib \<Rightarrow> wallet \<Rightarrow> proc" where
  "challenge2 E signer =
     (let answer = ''The Merge'' in
      Log (''solving challenge 2 with answer: '' @ answer)
        (case generateSignature E answer signer of
           Inl e \<Rightarrow> Throw e
         | Inr signature \<Rightarrow>
             Log (CHR 0x09 # ''signature: '' @ signature)
               (case arrayify signature of
                  Inl e \<Rightarrow> Throw e
                | Inr sigBytes \<Rightarrow>
                    (case generateFunctionData E ''solveChallenge2'' [Str answer, Bytes sigBytes] of
                       Inl e \<Rightarrow> Throw e
                     | Inr d \<Rightarrow>
                         then_do (submitTx E d signer)
                           (Log (''challenge 2 completed.'' @ [CHR 0x0A]) Return)))))"

definition challenge3a :: "lib \<Rightarrow> wallet \<Rightarrow> proc" where
  "challenge3a E signer =
     (let answer = ''EIP-4844'' in
      Log (''solving challenge 3a with answer: '' @ answer)
        (case generateSignature E answer signer of
           Inl e \<Rightarrow> Throw e
         | Inr signature \<Rightarrow>
             Log (CHR 0x09 # ''signature: '' @ signature)
               (case arrayify signature of
                  Inl e \<Rightarrow> Throw e
                | Inr sigBytes \<Rightarrow>
                    (case generateFunctionData E ''solveChallenge3''
                            [Str answer, Address (getAddress E signer), Bytes sigBytes] of
                       Inl e \<Rightarrow> Throw e
                     | Inr d \<Rightarrow>
                         then_do (submitTx E d signer)
                           (Log (''challenge 3a completed.'' @ [CHR 0x0A]) Return)))))"

definition challenge3b :: "lib \<Rightarrow> wallet \<Rightarrow> proc" where
  "challenge3b E signer =
     (let answer = ''EIP-4844'' in
      Log (''solving challenge 3b with answer: '' @ answer)
        (case generateSignature E answer signer of
           Inl e \<Rightarrow> Throw e
         | Inr signature \<Rightarrow>
             Log (CHR 0x09 # ''signature: '' @ signature)
               (case splitSignature signature of
                  Inl e \<Rightarrow> Throw e
                | Inr parts \<Rightarrow>
                    Log (CHR 0x09 # ''compact signature: '' @ compact parts)
                      (case arrayify (compact parts) of
                         Inl e \<Rightarrow> Throw e
                       | Inr sigBytes \<Rightarrow>
                           (case generateFunctionData E ''solveChallenge3''
                                   [Str answer, Address (getAddress E signer), Bytes sigBytes] of
                              Inl e \<Rightarrow> Throw e
                            | Inr d \<Rightarrow>
                                then_do (submitTx E d signer)
                                  (Log (''challenge 3b completed.'' @ [CHR 0x0A]) Return))))))"

text \<open>The handler of the final \<open>.catch\<close>: one line on the error stream.\<close>

definition report :: "lib \<Rightarrow> error \<Rightarrow> proc" where
  "report E err =
     LogError (''An error occurred while completing challenges. Details: '' @ stringify_err E err)
       Return"

text \<open>\<open>main\<close>: the key comes from the environment (the text \<open>undefined\<close> when the
  variable is not set); a key the wallet refuses makes the constructor throw before the
  chain is built.\<close>

definition main :: "lib \<Rightarrow> string option \<Rightarrow> proc" where
  "main E WALLET_PK =
     (case newWallet E (case WALLET_PK of None \<Rightarrow> ''undefined'' | Some k \<Rightarrow> k) of
        Inl e \<Rightarrow> Throw e
      | Inr signer \<Rightarrow>
          catch_with
            (then_do (then_do (then_do (challenge1 E signer) (challenge2 E signer))
                        (challenge3a E signer))
               (challenge3b E signer))
            (report E))"

section \<open>Observing a run\<close>

text \<open>The answers thread 0 receives, the events it produces, and what is left of it.
  A run started with \<open>start\<close> always has thread 0.\<close>

definition main_replies :: "(nat \<times> reply) list \<Rightarrow> reply list" where
  "main_replies sched = map snd (filter (\<lambda>l. fst l = 0) sched)"

definition main_events :: "state \<Rightarrow> action list" where
  "main_events st = map snd (filter (\<lambda>ev. fst ev = 0) (snd st))"

definition main_thread :: "state \<Rightarrow> proc" where
  "main_thread st = hd (fst st)"

text \<open>A promise is settled when it is fulfilled or rejected.\<close>

fun settled :: "proc \<Rightarrow> bool" where
  "settled Return = True"
| "settled (Throw e) = True"
| "settled _ = False"

text \<open>The awaited path of a body on its own: \<open>exec p rs\<close> answers the requests of
  \<open>p\<close> with \<open>rs\<close> in order and returns the events of \<open>p\<close> itself, what is left of
  \<open>p\<close> and the answers not used. It stops at a request the next answer does not fit.
  Detached chains are left out: nothing of them comes back to the body.\<close>

primrec exec :: "proc \<Rightarrow> reply list \<Rightarrow> action list \<times> proc \<times> reply list" where
  "exec Return rs = ([], Return, rs)"
| "exec (Throw e) rs = ([], Throw e, rs)"
| "exec (Log s p) rs = (case exec p rs of (as, out, rest) \<Rightarrow> (Stdout s # as, out, rest))"
| "exec (LogError s p) rs = (case exec p rs of (as, out, rest) \<Rightarrow> (Stderr s # as, out, rest))"
| "exec (GetGasPrice k) rs =
     (case rs of
        GasPrice r # rs' \<Rightarrow>
          (case exec (k r) rs' of (as, out, rest) \<Rightarrow> (Call GetGasPriceReq # as, out, rest))
      | _ \<Rightarrow> ([Call GetGasPriceReq], GetGasPrice k, rs))"
| "exec (EstimateGas w t k) rs =
     (case rs of
        GasEstimate r # rs' \<Rightarrow>
          (case exec (k r) rs' of (as, out, rest) \<Rightarrow> (Call (EstimateGasReq w t) # as, out, rest))
      | _ \<Rightarrow> ([Call (EstimateGasReq w t)], EstimateGas w t k, rs))"
| "exec (SendTransaction w t k) rs =
     (case rs of
        Sent r # rs' \<Rightarrow>
          (case exec (k r) rs' of (as, out, rest) \<Rightarrow>
             (Call (SendTransactionReq w t) # as, out, rest))
      | _ \<Rightarrow> ([Call (SendTransactionReq w t)], SendTransaction w t k, rs))"
| "exec (Detach d p) rs = exec p rs"

text \<open>The same path, one answer at a time, as the event loop takes it.\<close>

fun feed :: "reply list \<Rightarrow> action list \<times> proc \<Rightarrow> action list \<times> proc" where
  "feed [] v = v"
| "feed (r # rs) (as, p) =
     (case resume p r of
        None \<Rightarrow> feed rs (as, p)
      | Some q \<Rightarrow> (case exec q [] of (as', p', _) \<Rightarrow> feed rs (as @ as', p')))"

text \<open>The requests a body can ever send, on any path and in any detached chain.\<close>

primrec calls :: "proc \<Rightarrow> request set" where
  "calls Return = {}"
| "calls (Throw e) = {}"
| "calls (Log s p) = calls p"
| "calls (LogError s p) = calls p"
| "calls (GetGasPrice k) = insert GetGasPriceReq (\<Union>r. calls (k r))"
| "calls (EstimateGas w t k) = insert (EstimateGasReq w t) (\<Union>r. calls (k r))"
| "calls (SendTransaction w t k) = insert (SendTransactionReq w t) (\<Union>r. calls (k r))"
| "calls (Detach d p) = calls d \<union> calls p"

text \<open>A state stays within a set of requests when every thread can only send
  requests of the set and every request sent so far is in it.\<close>

definition within :: "request set \<Rightarrow> state \<Rightarrow> bool" where
  "within C st \<longleftrightarrow>
     (\<forall>q \<in> set (fst st). calls q \<subseteq> C) \<and> (\<forall>j c. (j, Call c) \<in> set (snd st) \<longrightarrow> c \<in> C)"

text \<open>The lines of \<open>console.error\<close> among the events.\<close>

fun is_stderr :: "action \<Rightarrow> bool" where
  "is_stderr (Stderr s) = True"
| "is_stderr _ = False"

text \<open>A body is quiet when it never writes to the error stream, on any path and in any
  detached chain; its detached chains are quiet when each of them is.\<close>

primrec quiet :: "proc \<Rightarrow> bool" where
  "quiet Return = True"
| "quiet (Throw e) = True"
| "quiet (Log s p) = quiet p"
| "quiet (LogError s p) = False"
| "quiet (GetGasPrice k) = (\<forall>r. quiet (k r))"
| "quiet (EstimateGas w t k) = (\<forall>r. quiet (k r))"
| "quiet (SendTransaction w t k) = (\<forall>r. quiet (k r))"
| "quiet (Detach d p) = (quiet d \<and> quiet p)"

primrec kids_quiet :: "proc \<Rightarrow> bool" where
  "kids_quiet Return = True"
| "kids_quiet (Throw e) = True"
| "kids_quiet (Log s p) = kids_quiet p"
| "kids_quiet (LogError s p) = kids_quiet p"
| "kids_quiet (GetGasPrice k) = (\<forall>r. kids_quiet (k r))"
| "kids_quiet (EstimateGas w t k) = (\<forall>r. kids_quiet (k r))"
| "kids_quiet (SendTransaction w t k) = (\<forall>r. kids_quiet (k r))"
| "kids_quiet (Detach d p) = (quiet d \<and> kids_quiet p)"

text \<open>A state is hushed when only thread 0 can write, or has written, to the error
  stream.\<close>

definition hushed :: "state \<Rightarrow> bool" where
  "hushed st \<longleftrightarrow>
     fst st \<noteq> [] \<and> kids_quiet (hd (fst st)) \<and> (\<forall>q \<in> set (tl (fst st)). quiet q) \<and>
     (\<forall>ev \<in> set (snd st). fst ev \<noteq> 0 \<longrightarrow> \<not> is_stderr (snd ev))"

text \<open>A body is suspended when it waits for an answer of the node.\<close>

fun suspended :: "proc \<Rightarrow> bool" where
  "suspended (GetGasPrice k) = True"
| "suspended (EstimateGas w t k) = True"
| "suspended (SendTransaction w t k) = True"
| "suspended _ = False"

text \<open>The awaited chain \<open>a.then(B).catch(h)\<close> and the same chain without \<open>B\<close> are
  related as long as \<open>a\<close>, answered with \<open>rs\<close>, ends rejected: \<open>B\<close> is then never
  reached.\<close>

definition cut_rel :: "proc \<Rightarrow> (error \<Rightarrow> proc) \<Rightarrow> reply list \<Rightarrow> proc \<Rightarrow> proc \<Rightarrow> bool" where
  "cut_rel B h rs p p' \<longleftrightarrow>
     p = p' \<or>
     (\<exists>a as e rest. p = catch_with (then_do a B) h \<and> p' = catch_with a h \<and> suspended a \<and>
        exec a rs = (as, Throw e, rest))"

section \<open>A stand-in library for concrete runs\<close>

text \<open>To evaluate the script on concrete inputs the parameters are instantiated with
  simple functions: the hash of a message is 32 copies of its length, every signature is
  \<open>(1, 2, 1)\<close>, every address is 7, the only key the constructor takes is 32 bytes of
  1, and the printers show the payload.\<close>

definition test_lib :: lib where
  "test_lib =
     \<lparr>keccak = (\<lambda>bs. replicate 32 (of_nat (length bs))),
      ecdsa = (\<lambda>k d. (1, 2, True)),
      computeAddress = (\<lambda>k. 7),
      newWallet = (\<lambda>key. if key = hexlify (replicate 32 1)
                         then Inr \<lparr>privateKey = replicate 32 1\<rparr>
                         else Inl (Error ''invalid private key'')),
      stringify_tx = (\<lambda>t. case t of TxResponse h \<Rightarrow> h),
      stringify_err = (\<lambda>e. case e of Error m \<Rightarrow> m)\<rparr>"

definition test_wallet :: wallet where
  "test_wallet = \<lparr>privateKey = replicate 32 1\<rparr>"

section \<open>Hex strings round-trip\<close>

lemma hexDigit_table:
  "list_all (\<lambda>n. digitVal (hexDigit n) = n \<and> isHexDigit (hexDigit n)) [0..<16]"
  by code_simp

lemma hexDigit_cases: "n < 16 \<Longrightarrow> digitVal (hexDigit n) = n \<and> isHexDigit (hexDigit n)"
  using hexDigit_table unfolding list_all_iff by (metis atLeast_upt lessThan_iff)

lemma hexPairs_hexByte: "hexPairs (hexByte b @ cs) = b # hexPairs cs"
proof -
  have "unat b < 256" using unsigned_less [of b, where 'a = nat] by simp
  then have lt: "unat b div 16 < 16" by simp
  have "of_nat (unat b div 16 * 16 + unat b mod 16) = b" by simp
  then show ?thesis
    using hexDigit_cases [OF lt] hexDigit_cases [of "unat b mod 16"]
    by (simp add: hexByte_def)
qed

lemma hexPairs_concat: "hexPairs (concat (map hexByte bs)) = bs"
  by (induction bs) (simp_all add: hexPairs_hexByte)

lemma isHexDigit_hexByte: "list_all isHexDigit (hexByte b)"
proof -
  have "unat b < 256" using unsigned_less [of b, where 'a = nat] by simp
  then have lt: "unat b div 16 < 16" by simp
  show ?thesis
    using hexDigit_cases [OF lt] hexDigit_cases [of "unat b mod 16"]
    by (simp add: hexByte_def)
qed

lemma isHexDigit_concat: "list_all isHexDigit (concat (map hexByte bs))"
  by (induction bs) (simp_all add: isHexDigit_hexByte)

lemma length_hexBytes: "length (concat (map hexByte bs)) = 2 * length bs"
  by (induction bs) (simp_all add: hexByte_def)

lemma arrayify_hexlify: "arrayify (hexlify bs) = Inr bs"
  by (simp add: arrayify_def hexlify_def isHexDigit_concat length_hexBytes hexPairs_concat)

lemma length_hexlify: "length (hexlify bs) = 2 + 2 * length bs"
  by (simp add: hexlify_def length_hexBytes)

lemma length_be_bytes: "length (be_bytes n x) = n"
  by (induction n arbitrary: x) simp_all

lemma decimal_32: "decimal 32 = ''32''"
  by (simp add: hexDigit_def)

lemma utf8_faucet: "toUtf8Bytes ''faucet'' = [0x66, 0x61, 0x75, 0x63, 0x65, 0x74]"
  by (simp add: toUtf8Bytes_def utf8Char_def)

lemma be_bytes_zero: "be_bytes n 0 = replicate n 0"
  by (induction n) (simp_all add: replicate_append_same)

lemma be_bytes_small: "x < 256 \<Longrightarrow> be_bytes (Suc n) x = replicate n 0 @ [of_nat x]"
  by (simp add: be_bytes_zero)

lemma be_bytes_32: "x < 256 \<Longrightarrow> be_bytes 32 x = replicate 31 0 @ [of_nat x]"
  using be_bytes_small [of x 31] by simp

section \<open>Encoding a call\<close>

lemma encode_faucet:
  "generateFunctionData E ''solveChallenge1'' [Str ''faucet''] =
     Inr (hexlify (take 4 (keccak E (toUtf8Bytes ''solveChallenge1(string)''))
                   @ (replicate 31 0 @ [0x20])
                   @ (replicate 31 0 @ [0x06])
                   @ [0x66, 0x61, 0x75, 0x63, 0x65, 0x74] @ replicate 26 0))"
proof -
  have len: "be_bytes 32 (length (toUtf8Bytes ''faucet'')) = replicate 31 0 @ [0x06]"
  proof -
    have "length (toUtf8Bytes ''faucet'') = 6" by (simp add: utf8_faucet)
    then show ?thesis using be_bytes_32 [of 6] by simp
  qed
  have off: "be_bytes 32 32 = replicate 31 0 @ [0x20]"
    using be_bytes_32 [of 32] by simp
  show ?thesis
    by (simp add: generateFunctionData_def encodeFunctionData_def Bounty_def selector_def
        canonical_def abi_pack_def encode_dynamic_def pad32_def length_be_bytes len off)
      (simp add: utf8_faucet)
qed

text \<open>C6. \<open>generateFunctionData "solveChallenge1" ["faucet"]\<close> is the hex form of a byte
  string that starts with the 4-byte selector (the first four bytes of the hash of the
  canonical signature \<open>solveChallenge1(string)\<close>), followed by the encoding of the
  dynamic string: the offset word \<open>0x20\<close>, the length word 6 and the six bytes of
  \<open>faucet\<close> padded with zeros to 32 bytes.\<close>

theorem encode_solveChallenge1_faucet:
  "generateFunctionData E ''solveChallenge1'' [Str ''faucet''] =
     Inr (hexlify (take 4 (keccak E (toUtf8Bytes ''solveChallenge1(string)''))
                   @ (replicate 31 0 @ [0x20])
                   @ (replicate 31 0 @ [0x06])
                   @ [0x66, 0x61, 0x75, 0x63, 0x65, 0x74] @ replicate 26 0))"
  by (rule encode_faucet)

section \<open>Signing\<close>

lemma generateSignature_eq:
  assumes "\<forall>bs. length (keccak E bs) = 32"
  shows "generateSignature E v signer =
           Inr (joinSignature (ecdsa E (privateKey signer)
                  (keccak E (toUtf8Bytes messagePrefix @ toUtf8Bytes ''32''
                             @ keccak E (toUtf8Bytes v)))))"
  using assms
  by (simp add: generateSignature_def keccak256_def arrayify_hexlify signMessage_def
      signDigest_def hashMessage_def decimal_32 del: decimal.simps)

lemma keccak_test_lib: "\<forall>bs. length (keccak test_lib bs) = 32"
  by (simp add: test_lib_def)

lemma generateSignature_test:
  "generateSignature test_lib v test_wallet = Inr (joinSignature (1, 2, True))"
  using generateSignature_eq [OF keccak_test_lib, of v test_wallet]
  by (simp add: test_lib_def)

lemma arrayify_joinSignature:
  "arrayify (joinSignature (r, s, p)) =
     Inr (be_bytes 32 (unat r) @ be_bytes 32 (unat s) @ [if p then 0x1c else 0x1b])"
  by (simp add: joinSignature_def arrayify_hexlify)

lemma encode_is_Inr:
  "\<exists>d. generateFunctionData E ''solveChallenge1'' [Str a] = Inr d"
  "\<exists>d. generateFunctionData E ''solveChallenge2'' [Str a, Bytes b] = Inr d"
  "\<exists>d. generateFunctionData E ''solveChallenge3'' [Str a, Address x, Bytes b] = Inr d"
  by (simp_all add: generateFunctionData_def encodeFunctionData_def Bounty_def)

text \<open>C5. With a 32-byte hash function, \<open>generateSignature\<close> hashes the UTF-8 bytes of
  the answer once, and signs the hash of the preamble, the decimal length \<open>32\<close> and the
  32 raw digest bytes (not the 66 characters of the digest's hex string).\<close>

theorem generateSignature_digest:
  assumes "\<forall>bs. length (keccak E bs) = 32"
  shows "generateSignature E v signer =
           Inr (joinSignature (ecdsa E (privateKey signer)
                  (keccak E (toUtf8Bytes messagePrefix @ toUtf8Bytes ''32''
                             @ keccak E (toUtf8Bytes v)))))"
  by (rule generateSignature_eq [OF assms])


theorem generateSignature_digest_witness:
  "(\<forall>bs. length (keccak test_lib bs) = 32) \<and>
   generateSignature test_lib ''The Merge'' test_wallet =
     Inr (joinSignature (1, 2, True))"
  using generateSignature_digest [of test_lib "''The Merge''" test_wallet]
  by (simp add: test_lib_def)

lemma hexlify_append: "hexlify a @ drop 2 (hexlify b) = hexlify (a @ b)"
  by (simp add: hexlify_def)

lemma splitSignature_bytes:
  assumes R: "length R = 32" and S: "length S = 32" and v: "v = 0x1b \<or> v = 0x1c"
  shows "splitSignature (hexlify (R @ S @ [v])) =
           Inr \<lparr>sig_r = hexlify R, sig_s = hexlify S,
                sig_v = (if v = 0x1c then 28 else 27),
                recoveryParam = (if v = 0x1c then 1 else 0),
                sig_vs = hexlify (if v = 0x1c then S[0 := S ! 0 OR 0x80] else S),
                compact = hexlify (R @ (if v = 0x1c then S[0 := S ! 0 OR 0x80] else S))\<rparr>"
proof -
  have n64: "(R @ S @ [y]) ! 64 = y" for y using R S by (simp add: nth_append)
  have n32: "(R @ S @ [y]) ! 32 = S ! 0" for y using R S by (simp add: nth_append)
  have t1: "take 32 (R @ S @ [y]) = R" for y using R by simp
  have t2: "take 32 (drop 32 (R @ S @ [y])) = S" for y using R S by simp
  have u: "take 32 (drop 32 ((R @ S @ [y])[32 := x])) = S[0 := x]" for x y
    using R S by (simp add: list_update_append)
  have t1': "take 32 ((R @ S @ [y])[32 := x]) = R" for x y
    using R by (simp add: list_update_append)
  show ?thesis
    using v R S
    by (auto simp: splitSignature_def arrayify_hexlify Let_def n64 n32 t1 t2 u t1'
        hexlify_append)
qed

lemma splitSignature_join:
  "splitSignature (joinSignature (r, s, p)) =
     Inr \<lparr>sig_r = hexlify (be_bytes 32 (unat r)), sig_s = hexlify (be_bytes 32 (unat s)),
          sig_v = (if p then 28 else 27),
          recoveryParam = (if p then 1 else 0),
          sig_vs = hexlify (if p then (be_bytes 32 (unat s))[0 := be_bytes 32 (unat s) ! 0 OR 0x80]
                            else be_bytes 32 (unat s)),
          compact = hexlify (be_bytes 32 (unat r) @
                      (if p then (be_bytes 32 (unat s))[0 := be_bytes 32 (unat s) ! 0 OR 0x80]
                       else be_bytes 32 (unat s)))\<rparr>"
  using splitSignature_bytes [of "be_bytes 32 (unat r)" "be_bytes 32 (unat s)"
      "if p then 0x1c else 0x1b"]
  by (simp add: joinSignature_def length_be_bytes)

lemma signature_shape:
  assumes "\<forall>bs. length (keccak E bs) = 32"
  shows "\<exists>r s p. generateSignature E v signer = Inr (joinSignature (r, s, p)) \<and>
           (r, s, p) = ecdsa E (privateKey signer)
                  (keccak E (toUtf8Bytes messagePrefix @ toUtf8Bytes ''32''
                             @ keccak E (toUtf8Bytes v)))"
  using generateSignature_eq [OF assms, of v signer]
  by (metis prod_cases3)

lemma compact_of_join:
  fixes r s :: "256 word" and p :: bool
  defines "ext \<equiv> be_bytes 32 (unat r) @ be_bytes 32 (unat s) @ [if p then 0x1c else 0x1b]"
  shows "\<exists>parts cmp.
           arrayify (joinSignature (r, s, p)) = Inr ext \<and> length ext = 65 \<and>
           splitSignature (joinSignature (r, s, p)) = Inr parts \<and>
           arrayify (compact parts) = Inr cmp \<and> length cmp = 64 \<and>
           cmp = take 32 ext @ (if ext ! 64 = 0x1c
                                then (take 32 (drop 32 ext))[0 := ext ! 32 OR 0x80]
                                else take 32 (drop 32 ext)) \<and>
           compact parts \<noteq> joinSignature (r, s, p) \<and> cmp \<noteq> ext"
proof -
  let ?R = "be_bytes 32 (unat r)" and ?S = "be_bytes 32 (unat s)"
  have n64: "ext ! 64 = (if p then 0x1c else 0x1b)"
    by (simp add: ext_def nth_append length_be_bytes)
  have n32: "ext ! 32 = ?S ! 0"
    by (simp add: ext_def nth_append length_be_bytes)
  have t1: "take 32 ext = ?R" by (simp add: ext_def length_be_bytes)
  have t2: "take 32 (drop 32 ext) = ?S" by (simp add: ext_def length_be_bytes)
  have len: "length ext = 65" by (simp add: ext_def length_be_bytes)
  have neq: "hexlify a \<noteq> hexlify b" if "length a \<noteq> length b" for a b
    using that length_hexlify [of a] length_hexlify [of b] by auto
  have neq2: "a \<noteq> ext" if "length a = 64" for a
    using that len by auto
  show ?thesis
    unfolding splitSignature_join
    by (auto simp: arrayify_joinSignature arrayify_hexlify length_be_bytes n64 n32 t1 t2 len
          ext_def [symmetric] joinSignature_def intro!: neq neq2)
qed

section \<open>The event loop and the awaited path\<close>

lemma advance_tags:
  "(j, a) \<in> set (fst (advance i n p)) \<Longrightarrow> j = i \<or> n \<le> j"
proof (induction p arbitrary: i n)
  case (Detach d p)
  let ?m = "Suc n + length (fst (snd (advance n (Suc n) d)))"
  from Detach.prems
  have "(j, a) \<in> set (fst (advance n (Suc n) d)) \<or> (j, a) \<in> set (fst (advance i ?m p))"
    by (simp add: split_beta)
  then show ?case
  proof
    assume "(j, a) \<in> set (fst (advance n (Suc n) d))"
    from Detach.IH(1) [OF this] show ?thesis by auto
  next
    assume "(j, a) \<in> set (fst (advance i ?m p))"
    from Detach.IH(2) [OF this] show ?thesis by auto
  qed
qed (auto simp: split_beta)

lemma advance_other:
  assumes "0 < i" "0 < n"
  shows "filter (\<lambda>ev. fst ev = 0) (fst (advance i n p)) = []"
proof -
  have "\<forall>ev \<in> set (fst (advance i n p)). fst ev \<noteq> 0"
    using advance_tags [of _ _ i n p] assms by fastforce
  then show ?thesis by (simp add: filter_empty_conv)
qed

lemma advance_main:
  "0 < n \<Longrightarrow>
   map snd (filter (\<lambda>ev. fst ev = 0) (fst (advance 0 n p))) = fst (exec p []) \<and>
   snd (snd (advance 0 n p)) = fst (snd (exec p []))"
proof (induction p arbitrary: n)
  case (Detach d p)
  have "filter (\<lambda>ev. fst ev = 0) (fst (advance n (Suc n) d)) = []"
    using Detach.prems by (simp add: advance_other)
  moreover have "0 < Suc n + length (fst (snd (advance n (Suc n) d)))" by simp
  ultimately show ?case
    using Detach.IH(2) [of "Suc n + length (fst (snd (advance n (Suc n) d)))"]
    by (simp add: split_beta)
qed (simp_all add: split_beta)

lemma step_ended: "ended st \<Longrightarrow> step l st = st"
  by (cases l; cases st) simp

lemma run_ended: "ended st \<Longrightarrow> run sched st = st"
  by (induction sched) (simp_all add: step_ended)

lemma step_other:
  assumes "i \<noteq> 0" "pool \<noteq> []"
  shows "fst (step (i, r) (pool, tr)) \<noteq> [] \<and>
         main_thread (step (i, r) (pool, tr)) = hd pool \<and>
         main_events (step (i, r) (pool, tr)) = main_events (pool, tr)"
proof -
  have len: "0 < length pool" using assms(2) by simp
  have i: "0 < i" using assms(1) by simp
  have hd_upd: "\<And>q ks. hd (pool[i := q] @ ks) = hd pool"
    using assms by (cases pool; cases i) simp_all
  show ?thesis
    using assms advance_other [OF i len]
    by (auto simp: main_thread_def main_events_def split_beta hd_upd split: option.splits)
qed

lemma step_main:
  assumes "pool \<noteq> []" and "\<not> ended (pool, tr)"
  shows "fst (step (0, r) (pool, tr)) \<noteq> [] \<and>
         (main_events (step (0, r) (pool, tr)), main_thread (step (0, r) (pool, tr))) =
           feed [r] (main_events (pool, tr), hd pool)"
proof -
  have len: "0 < length pool" using assms by simp
  have hd0: "pool ! 0 = hd pool" using assms by (simp add: hd_conv_nth)
  have hd_upd: "\<And>q ks. hd (pool[0 := q] @ ks) = q"
    using assms by (cases pool) simp_all
  show ?thesis
    using assms advance_main [OF len]
    by (auto simp: main_thread_def main_events_def split_beta hd_upd hd0 split: option.splits)
qed

lemma feed_append: "feed (rs @ rs') v = feed rs' (feed rs v)"
proof (induction rs arbitrary: v)
  case (Cons r rs)
  then show ?case by (cases v) (simp add: split_beta split: option.splits)
qed simp

lemma run_view:
  "fst st \<noteq> [] \<Longrightarrow> \<not> ended (run sched st) \<Longrightarrow>
   fst (run sched st) \<noteq> [] \<and>
   (main_events (run sched st), main_thread (run sched st)) =
     feed (main_replies sched) (main_events st, main_thread st)"
proof (induction sched arbitrary: st)
  case Nil
  then show ?case by (simp add: main_replies_def)
next
  case (Cons l sched)
  obtain i r where l: "l = (i, r)" by (cases l)
  obtain pool tr where st: "st = (pool, tr)" by (cases st)
  have ne: "pool \<noteq> []" using Cons.prems st by simp
  have alive: "\<not> ended (pool, tr)"
    using Cons.prems(2) st run_ended [of st "l # sched"] by auto
  have later: "\<not> ended (run sched (step l st))" using Cons.prems(2) by simp
  show ?case
  proof (cases "i = 0")
    case True
    have m: "main_replies (l # sched) = [r] @ main_replies sched"
      using True l by (simp add: main_replies_def)
    from step_main [OF ne alive, of r] Cons.IH [of "step (0, r) (pool, tr)"] later
    show ?thesis
      unfolding m feed_append using True l st
      by (simp add: main_thread_def)
  next
    case False
    have m: "main_replies (l # sched) = main_replies sched"
      using False l by (simp add: main_replies_def)
    from step_other [OF False ne, of r tr] Cons.IH [of "step (i, r) (pool, tr)"] later
    show ?thesis
      unfolding m using l st by (simp add: main_thread_def)
  qed
qed

lemma start_view:
  "fst (start p) \<noteq> [] \<and> main_events (start p) = fst (exec p []) \<and>
   main_thread (start p) = fst (snd (exec p []))"
  using advance_main [of 1 p]
  by (simp add: start_def main_events_def main_thread_def split_beta)

lemma feed_settled: "settled p \<Longrightarrow> feed rs (as, p) = (as, p)"
  by (induction rs) (cases p; simp)+

lemma feed_exec:
  "exec p rs = (as, out, rest) \<Longrightarrow> settled out \<or> rest = [] \<Longrightarrow>
   feed rs (pre @ fst (exec p []), fst (snd (exec p []))) = (pre @ as, out)"
proof (induction p arbitrary: rs as pre)
  case Return
  then show ?case by (auto simp: feed_settled)
next
  case (Throw e)
  then show ?case by (auto simp: feed_settled)
next
  case (Log s p)
  from Log.prems obtain as' where e: "exec p rs = (as', out, rest)" and a: "as = Stdout s # as'"
    by (auto simp: split_beta prod_eq_iff)
  from Log.IH [OF e Log.prems(2), of "pre @ [Stdout s]"] a
  show ?case by (simp add: split_beta)
next
  case (LogError s p)
  from LogError.prems obtain as' where e: "exec p rs = (as', out, rest)" and a: "as = Stderr s # as'"
    by (auto simp: split_beta prod_eq_iff)
  from LogError.IH [OF e LogError.prems(2), of "pre @ [Stderr s]"] a
  show ?case by (simp add: split_beta)
next
  case (GetGasPrice k)
  show ?case
  proof (cases "\<exists>r rs'. rs = GasPrice r # rs'")
    case True
    then obtain r rs' where rs: "rs = GasPrice r # rs'" by auto
    from GetGasPrice.prems rs obtain as' where
      e: "exec (k r) rs' = (as', out, rest)" and a: "as = Call GetGasPriceReq # as'"
      by (auto simp: split_beta prod_eq_iff)
    from GetGasPrice.IH [OF _ e GetGasPrice.prems(2), of "pre @ [Call GetGasPriceReq]"] a rs
    show ?thesis by (simp add: split_beta)
  next
    case False
    with GetGasPrice.prems have "rs = []"
      by (auto split: list.splits reply.splits)
    with GetGasPrice.prems show ?thesis by auto
  qed
next
  case (EstimateGas w t k)
  show ?case
  proof (cases "\<exists>r rs'. rs = GasEstimate r # rs'")
    case True
    then obtain r rs' where rs: "rs = GasEstimate r # rs'" by auto
    from EstimateGas.prems rs obtain as' where
      e: "exec (k r) rs' = (as', out, rest)" and a: "as = Call (EstimateGasReq w t) # as'"
      by (auto simp: split_beta prod_eq_iff)
    from EstimateGas.IH [OF _ e EstimateGas.prems(2), of "pre @ [Call (EstimateGasReq w t)]"] a rs
    show ?thesis by (simp add: split_beta)
  next
    case False
    with EstimateGas.prems have "rs = []"
      by (auto split: list.splits reply.splits)
    with EstimateGas.prems show ?thesis by auto
  qed
next
  case (SendTransaction w t k)
  show ?case
  proof (cases "\<exists>r rs'. rs = Sent r # rs'")
    case True
    then obtain r rs' where rs: "rs = Sent r # rs'" by auto
    from SendTransaction.prems rs obtain as' where
      e: "exec (k r) rs' = (as', out, rest)" and a: "as = Call (SendTransactionReq w t) # as'"
      by (auto simp: split_beta prod_eq_iff)
    from SendTransaction.IH [OF _ e SendTransaction.prems(2),
        of "pre @ [Call (SendTransactionReq w t)]"] a rs
    show ?thesis by (simp add: split_beta)
  next
    case False
    with SendTransaction.prems have "rs = []"
      by (auto split: list.splits reply.splits)
    with SendTransaction.prems show ?thesis by auto
  qed
next
  case (Detach d p)
  then show ?case by simp
qed

lemma run_exec:
  assumes "exec p (main_replies sched) = (as, out, rest)" and "settled out \<or> rest = []"
    and "\<not> ended (run sched (start p))"
  shows "main_events (run sched (start p)) = as \<and> main_thread (run sched (start p)) = out"
  using run_view [of "start p" sched] start_view [of p] feed_exec [OF assms(1,2), of "[]"] assms(3)
  by simp

lemma exec_then_Return:
  "exec p rs = (as, Return, rest) \<Longrightarrow>
   exec (then_do p q) rs = (case exec q rest of (as2, out, rest2) \<Rightarrow> (as @ as2, out, rest2))"
proof (induction p arbitrary: rs as)
  case (GetGasPrice k)
  then show ?case
    by (auto simp: split_beta prod_eq_iff split: list.splits reply.splits)
next
  case (EstimateGas w t k)
  then show ?case
    by (auto simp: split_beta prod_eq_iff split: list.splits reply.splits)
next
  case (SendTransaction w t k)
  then show ?case
    by (auto simp: split_beta prod_eq_iff split: list.splits reply.splits)
qed (auto simp: split_beta prod_eq_iff)

lemma exec_then_Throw:
  "exec p rs = (as, Throw e, rest) \<Longrightarrow> exec (then_do p q) rs = (as, Throw e, rest)"
proof (induction p arbitrary: rs as)
  case (GetGasPrice k)
  then show ?case
    by (auto simp: split_beta prod_eq_iff split: list.splits reply.splits)
next
  case (EstimateGas w t k)
  then show ?case
    by (auto simp: split_beta prod_eq_iff split: list.splits reply.splits)
next
  case (SendTransaction w t k)
  then show ?case
    by (auto simp: split_beta prod_eq_iff split: list.splits reply.splits)
qed (auto simp: split_beta prod_eq_iff)

lemma exec_catch_Return:
  "exec p rs = (as, Return, rest) \<Longrightarrow> exec (catch_with p h) rs = (as, Return, rest)"
proof (induction p arbitrary: rs as)
  case (GetGasPrice k)
  then show ?case
    by (auto simp: split_beta prod_eq_iff split: list.splits reply.splits)
next
  case (EstimateGas w t k)
  then show ?case
    by (auto simp: split_beta prod_eq_iff split: list.splits reply.splits)
next
  case (SendTransaction w t k)
  then show ?case
    by (auto simp: split_beta prod_eq_iff split: list.splits reply.splits)
qed (auto simp: split_beta prod_eq_iff)

lemma exec_catch_Throw:
  "exec p rs = (as, Throw e, rest) \<Longrightarrow>
   exec (catch_with p h) rs =
     (case exec (h e) rest of (as2, out, rest2) \<Rightarrow> (as @ as2, out, rest2))"
proof (induction p arbitrary: rs as)
  case (GetGasPrice k)
  then show ?case
    by (auto simp: split_beta prod_eq_iff split: list.splits reply.splits)
next
  case (EstimateGas w t k)
  then show ?case
    by (auto simp: split_beta prod_eq_iff split: list.splits reply.splits)
next
  case (SendTransaction w t k)
  then show ?case
    by (auto simp: split_beta prod_eq_iff split: list.splits reply.splits)
qed (auto simp: split_beta prod_eq_iff)

lemma exec_more:
  "exec p rs = (as, out, []) \<Longrightarrow> settled out \<Longrightarrow> exec p (rs @ extra) = (as, out, extra)"
proof (induction p arbitrary: rs as)
  case (GetGasPrice k)
  then show ?case
    by (auto simp: split_beta prod_eq_iff split: list.splits reply.splits)
next
  case (EstimateGas w t k)
  then show ?case
    by (auto simp: split_beta prod_eq_iff split: list.splits reply.splits)
next
  case (SendTransaction w t k)
  then show ?case
    by (auto simp: split_beta prod_eq_iff split: list.splits reply.splits)
qed (auto simp: split_beta prod_eq_iff)

lemma then_do_assoc: "then_do (then_do p q) r = then_do p (then_do q r)"
  by (induction p) simp_all

lemma then_do_Return: "then_do p Return = p"
  by (induction p) simp_all

lemma run_main_settled:
  "fst st \<noteq> [] \<Longrightarrow> settled (hd (fst st)) \<Longrightarrow>
   fst (run sched st) \<noteq> [] \<and> main_thread (run sched st) = main_thread st \<and>
   main_events (run sched st) = main_events st"
proof (induction sched arbitrary: st)
  case Nil
  then show ?case by simp
next
  case (Cons l sched)
  obtain i r where l: "l = (i, r)" by (cases l)
  obtain pool tr where st: "st = (pool, tr)" by (cases st)
  have ne: "pool \<noteq> []" using Cons.prems st by simp
  have s: "fst (step l st) \<noteq> [] \<and> main_thread (step l st) = main_thread st \<and>
           main_events (step l st) = main_events st"
  proof (cases "i = 0")
    case True
    have "pool ! 0 = hd pool" using ne by (simp add: hd_conv_nth)
    moreover have "resume (hd pool) r = None"
      using Cons.prems(2) st by (cases "hd pool") simp_all
    ultimately have "step l st = st" using l st True by simp
    then show ?thesis using Cons.prems by simp
  next
    case False
    from step_other [OF False ne, of r tr] show ?thesis
      using l st by (simp add: main_thread_def)
  qed
  then have "settled (hd (fst (step l st)))" using Cons.prems(2) by (simp add: main_thread_def)
  from Cons.IH [OF _ this] s show ?case by simp
qed


section \<open>The requests of a run\<close>

lemma advance_calls:
  "(\<forall>j c. (j, Call c) \<in> set (fst (advance i n p)) \<longrightarrow> c \<in> calls p) \<and>
   (\<forall>q \<in> set (fst (snd (advance i n p))). calls q \<subseteq> calls p) \<and>
   calls (snd (snd (advance i n p))) \<subseteq> calls p"
proof (induction p arbitrary: i n)
  case (Detach d p)
  let ?m = "Suc n + length (fst (snd (advance n (Suc n) d)))"
  from Detach.IH(1) [of n "Suc n"] Detach.IH(2) [of i ?m]
  show ?case by (simp add: split_beta) blast
qed (auto simp: split_beta)

lemma resume_calls: "resume p r = Some q \<Longrightarrow> calls q \<subseteq> calls p"
  by (cases p; cases r) auto

lemma step_within: "within C st \<Longrightarrow> within C (step l st)"
proof -
  assume w: "within C st"
  obtain i r where l: "l = (i, r)" by (cases l)
  obtain pool tr where st: "st = (pool, tr)" by (cases st)
  show ?thesis
  proof (cases "i < length pool \<and> resume (pool ! i) r \<noteq> None")
    case False
    then show ?thesis using w l st by auto
  next
    case True
    then obtain q where q: "resume (pool ! i) r = Some q" and i: "i < length pool" by auto
    have "calls (pool ! i) \<subseteq> C" using w st i by (simp add: within_def)
    then have qC: "calls q \<subseteq> C" using resume_calls [OF q] by blast
    note a = advance_calls [of i "length pool" q]
    have "\<forall>x \<in> set (pool[i := snd (snd (advance i (length pool) q))]). calls x \<subseteq> C"
    proof
      fix x assume "x \<in> set (pool[i := snd (snd (advance i (length pool) q))])"
      then have "x \<in> insert (snd (snd (advance i (length pool) q))) (set pool)"
        using set_update_subset_insert by fastforce
      then show "calls x \<subseteq> C" using a qC w st by (auto simp: within_def)
    qed
    moreover have "\<forall>x \<in> set (fst (snd (advance i (length pool) q))). calls x \<subseteq> C"
      using a qC by blast
    moreover have "\<forall>j c. (j, Call c) \<in> set (fst (advance i (length pool) q)) \<longrightarrow> c \<in> C"
      using a qC by blast
    ultimately show ?thesis
      using w l st q i by (auto simp: within_def split_beta)
  qed
qed

lemma run_within: "within C st \<Longrightarrow> within C (run sched st)"
  by (induction sched arbitrary: st) (simp_all add: step_within)

lemma run_append: "run (xs @ ys) st = run ys (run xs st)"
  by (induction xs arbitrary: st) simp_all

lemma run_trace_prefix: "\<exists>evs. snd (run sched st) = snd st @ evs"
proof (induction sched arbitrary: st)
  case (Cons l sched)
  obtain i r where l: "l = (i, r)" by (cases l)
  obtain pool tr where st: "st = (pool, tr)" by (cases st)
  have "\<exists>evs. snd (step l st) = snd st @ evs"
    using l st by (auto simp: split_beta split: option.splits)
  then show ?case using Cons.IH [of "step l st"] by auto
qed simp

lemma run_idle:
  "length (fst st) = 1 \<Longrightarrow> \<forall>l \<in> set sched. fst l \<noteq> 0 \<Longrightarrow> run sched st = st"
proof (induction sched arbitrary: st)
  case (Cons l sched)
  obtain i r where l: "l = (i, r)" by (cases l)
  obtain pool tr where st: "st = (pool, tr)" by (cases st)
  have "step l st = st" using Cons.prems l st by simp
  then show ?case using Cons by simp
qed simp

lemma main_replies_split:
  assumes "main_replies sched = r # extra"
  shows "\<exists>pre post. sched = pre @ (0, r) # post \<and> (\<forall>l \<in> set pre. fst l \<noteq> 0)"
proof -
  from assms obtain z zs where f: "filter (\<lambda>l. fst l = 0) sched = z # zs" and z: "snd z = r"
    by (auto simp: main_replies_def)
  from f obtain pre post where "sched = pre @ z # post" "\<forall>u \<in> set pre. fst u \<noteq> 0" "fst z = 0"
    unfolding filter_eq_Cons_iff by blast
  moreover have "z = (0, r)" using z \<open>fst z = 0\<close> by (cases z) simp
  ultimately show ?thesis by blast
qed

section \<open>The error stream of a run\<close>

lemma quiet_kids: "quiet p \<Longrightarrow> kids_quiet p"
  by (induction p) auto

lemma advance_quiet:
  "quiet p \<Longrightarrow>
   (\<forall>ev \<in> set (fst (advance i n p)). \<not> is_stderr (snd ev)) \<and>
   (\<forall>q \<in> set (fst (snd (advance i n p))). quiet q) \<and>
   quiet (snd (snd (advance i n p)))"
proof (induction p arbitrary: i n)
  case (Detach d p)
  let ?m = "Suc n + length (fst (snd (advance n (Suc n) d)))"
  from Detach.prems have "quiet d" "quiet p" by simp_all
  from Detach.IH(1) [OF this(1), of n "Suc n"] Detach.IH(2) [OF this(2), of i ?m]
  show ?case by (simp add: split_beta) blast
qed (auto simp: split_beta)

lemma advance_kids_quiet:
  "kids_quiet p \<Longrightarrow>
   (\<forall>ev \<in> set (fst (advance i n p)). fst ev \<noteq> i \<longrightarrow> \<not> is_stderr (snd ev)) \<and>
   (\<forall>q \<in> set (fst (snd (advance i n p))). quiet q) \<and>
   kids_quiet (snd (snd (advance i n p)))"
proof (induction p arbitrary: i n)
  case (Detach d p)
  let ?m = "Suc n + length (fst (snd (advance n (Suc n) d)))"
  from Detach.prems have "quiet d" "kids_quiet p" by simp_all
  from advance_quiet [OF this(1), of n "Suc n"] Detach.IH(2) [OF this(2), of i ?m]
  show ?case by (simp add: split_beta) blast
qed (auto simp: split_beta)

lemma resume_quiet: "resume p r = Some q \<Longrightarrow> quiet p \<Longrightarrow> quiet q"
  by (cases p; cases r) auto

lemma resume_kids_quiet: "resume p r = Some q \<Longrightarrow> kids_quiet p \<Longrightarrow> kids_quiet q"
  by (cases p; cases r) auto

lemma step_hushed: "hushed st \<Longrightarrow> hushed (step l st)"
proof -
  assume h: "hushed st"
  obtain i r where l: "l = (i, r)" by (cases l)
  obtain pool tr where st: "st = (pool, tr)" by (cases st)
  from h st obtain p0 ps where pool: "pool = p0 # ps" by (cases pool) (auto simp: hushed_def)
  have h0: "kids_quiet p0" and hs: "\<forall>q \<in> set ps. quiet q"
    and ht: "\<forall>ev \<in> set tr. fst ev \<noteq> 0 \<longrightarrow> \<not> is_stderr (snd ev)"
    using h st pool by (simp_all add: hushed_def)
  show ?thesis
  proof (cases "\<not> ended st \<and> i < length pool \<and> resume (pool ! i) r \<noteq> None")
    case False
    then have "step l st = st" using l st by (auto split: option.splits)
    then show ?thesis using h by simp
  next
    case True
    then obtain q where q: "resume (pool ! i) r = Some q" and i: "i < length pool"
      and alive: "\<not> ended (pool, tr)" using st by auto
    obtain evs kids res where adv: "advance i (length pool) q = (evs, kids, res)"
      by (cases "advance i (length pool) q") auto
    have s: "step l st = (pool[i := res] @ kids, tr @ evs)"
      using l st q i alive adv by simp
    show ?thesis
    proof (cases i)
      case 0
      have "kids_quiet q" using q h0 pool 0 resume_kids_quiet by auto
      from advance_kids_quiet [OF this, of 0 "length pool"] adv 0
      have a: "\<forall>ev \<in> set evs. fst ev \<noteq> 0 \<longrightarrow> \<not> is_stderr (snd ev)"
        and b: "\<forall>x \<in> set kids. quiet x" and c: "kids_quiet res" by simp_all
      have "step l st = (res # ps @ kids, tr @ evs)" using s pool 0 by simp
      then show ?thesis using a b c hs ht by (auto simp: hushed_def)
    next
      case (Suc j)
      have "quiet (pool ! i)" using hs pool Suc i by auto
      then have "quiet q" using q resume_quiet by blast
      from advance_quiet [OF this, of i "length pool"] adv
      have a: "\<forall>ev \<in> set evs. \<not> is_stderr (snd ev)"
        and b: "\<forall>x \<in> set kids. quiet x" and c: "quiet res" by simp_all
      have u: "\<forall>x \<in> set (ps[j := res]). quiet x"
      proof
        fix x assume "x \<in> set (ps[j := res])"
        then have "x \<in> insert res (set ps)"
          using set_update_subset_insert by fastforce
        then show "quiet x" using c hs by auto
      qed
      have "step l st = (p0 # ps[j := res] @ kids, tr @ evs)" using s pool Suc by simp
      then show ?thesis using a b u h0 ht by (auto simp: hushed_def)
    qed
  qed
qed

lemma run_hushed: "hushed st \<Longrightarrow> hushed (run sched st)"
  by (induction sched arbitrary: st) (simp_all add: step_hushed)

lemma start_hushed: "kids_quiet p \<Longrightarrow> hushed (start p)"
proof -
  assume k: "kids_quiet p"
  obtain evs kids res where adv: "advance 0 1 p = (evs, kids, res)"
    by (cases "advance 0 1 p") auto
  from advance_kids_quiet [OF k, of 0 1] adv show ?thesis
    by (simp add: hushed_def start_def)
qed

lemma hushed_stderr:
  assumes "hushed st"
  shows "filter is_stderr (map snd (snd st)) = filter is_stderr (main_events st)"
proof -
  have "\<forall>ev \<in> set tr. fst ev \<noteq> 0 \<longrightarrow> \<not> is_stderr (snd ev) \<Longrightarrow>
        filter is_stderr (map snd tr) = filter is_stderr (map snd (filter (\<lambda>ev. fst ev = 0) tr))"
    for tr :: "event list"
    by (induction tr) simp_all
  from this [of "snd st"] show ?thesis using assms by (simp add: hushed_def main_events_def)
qed

lemma exec_quiet: "quiet p \<Longrightarrow> \<forall>a \<in> set (fst (exec p rs)). \<not> is_stderr a"
proof (induction p arbitrary: rs)
  case (GetGasPrice k)
  then show ?case by (auto simp: split_beta split: list.splits reply.splits)
next
  case (EstimateGas w t k)
  then show ?case by (auto simp: split_beta split: list.splits reply.splits)
next
  case (SendTransaction w t k)
  then show ?case by (auto simp: split_beta split: list.splits reply.splits)
qed (auto simp: split_beta)

lemma quiet_then_do: "quiet p \<Longrightarrow> quiet q \<Longrightarrow> quiet (then_do p q)"
  by (induction p) auto

lemma kids_quiet_then_do: "kids_quiet p \<Longrightarrow> kids_quiet q \<Longrightarrow> kids_quiet (then_do p q)"
  by (induction p) auto

lemma kids_quiet_catch:
  "kids_quiet p \<Longrightarrow> (\<And>e. kids_quiet (h e)) \<Longrightarrow> kids_quiet (catch_with p h)"
  by (induction p) auto

lemma quiet_foldr: "\<forall>p \<in> set ps. quiet p \<Longrightarrow> quiet (foldr then_do ps Return)"
  by (induction ps) (simp_all add: quiet_then_do)

lemma quiet_submitTx: "quiet (submitTx E d signer)"
  by (auto simp: submitTx_def Let_def split: sum.splits)

lemma quiet_challenge1: "quiet (challenge1 E signer)"
  by (auto simp: challenge1_def Let_def quiet_then_do quiet_submitTx split: sum.splits)

lemma quiet_challenge2: "quiet (challenge2 E signer)"
  by (auto simp: challenge2_def Let_def quiet_then_do quiet_submitTx split: sum.splits)

lemma quiet_challenge3a: "quiet (challenge3a E signer)"
  by (auto simp: challenge3a_def Let_def quiet_then_do quiet_submitTx split: sum.splits)

lemma quiet_challenge3b: "quiet (challenge3b E signer)"
  by (auto simp: challenge3b_def Let_def quiet_then_do quiet_submitTx split: sum.splits)

section \<open>The detached simulate-and-send chain\<close>

lemma submitTx_after_price:
  "step (0, GasPrice (Inr price)) (start (submitTx E d signer)) =
     ([Return,
       EstimateGas signer \<lparr>to = contractAddress, data = d, gasPrice = price\<rparr> (\<lambda>est.
          case est of
            Inl e \<Rightarrow> Throw e
          | Inr gasLimit \<Rightarrow>
              if gasLimit \<le> 0 then Throw (Error ''Unable to simulation gas for transaction.'')
              else
                Log ''sending tx ...''
                  (Log (''data: '' @ d)
                     (SendTransaction signer \<lparr>to = contractAddress, data = d, gasPrice = price\<rparr>
                        (\<lambda>res.
                           case res of
                             Inl e \<Rightarrow> Throw e
                           | Inr txn \<Rightarrow> Log (''tx response: '' @ stringify_tx E txn) Return))))],
      [(0, Call GetGasPriceReq),
       (1, Call (EstimateGasReq signer \<lparr>to = contractAddress, data = d, gasPrice = price\<rparr>))])"
  by (simp add: start_def submitTx_def Let_def ended_def)

text \<open>C9. In every run of \<open>submitTx\<close> whose first answer to the awaited path is the gas
  price \<open>price\<close>, the run starts with the gas price request of this call, followed by
  the simulation of the request \<open>{to = contractAddress, data = d, gasPrice = price}\<close>,
  and every simulation and broadcast of the run carries exactly that request. Two calls
  in a row each send their own gas price request and each use their own answer.\<close>

theorem submitTx_request:
  assumes "main_replies sched = GasPrice (Inr price) # extra"
  shows "take 2 (snd (run sched (start (submitTx E d signer)))) =
           [(0, Call GetGasPriceReq),
            (1, Call (EstimateGasReq signer
                        \<lparr>to = contractAddress, data = d, gasPrice = price\<rparr>))] \<and>
         (\<forall>ev \<in> set (snd (run sched (start (submitTx E d signer)))). \<forall>w t.
            snd ev = Call (EstimateGasReq w t) \<or> snd ev = Call (SendTransactionReq w t) \<longrightarrow>
            w = signer \<and> t = \<lparr>to = contractAddress, data = d, gasPrice = price\<rparr>) \<and>
         snd (run [(0, GasPrice (Inr price)), (0, GasPrice (Inr price2))]
                (start (then_do (submitTx E d signer) (submitTx E d2 signer)))) =
           [(0, Call GetGasPriceReq),
            (1, Call (EstimateGasReq signer
                        \<lparr>to = contractAddress, data = d, gasPrice = price\<rparr>)),
            (0, Call GetGasPriceReq),
            (2, Call (EstimateGasReq signer
                        \<lparr>to = contractAddress, data = d2, gasPrice = price2\<rparr>))]"
proof -
  let ?t = "\<lparr>to = contractAddress, data = d, gasPrice = price\<rparr>"
  let ?C = "{GetGasPriceReq, EstimateGasReq signer ?t, SendTransactionReq signer ?t}"
  let ?st1 = "step (0, GasPrice (Inr price)) (start (submitTx E d signer))"
  from main_replies_split [OF assms] obtain pre post where
    sched: "sched = pre @ (0, GasPrice (Inr price)) # post" and pre: "\<forall>l \<in> set pre. fst l \<noteq> 0"
    by blast
  have "length (fst (start (submitTx E d signer))) = 1"
    by (simp add: start_def submitTx_def)
  then have idle: "run pre (start (submitTx E d signer)) = start (submitTx E d signer)"
    using pre by (rule run_idle)
  have r: "run sched (start (submitTx E d signer)) = run post ?st1"
    using idle by (simp add: sched run_append)
  have k2: "calls (case res of Inl e \<Rightarrow> Throw e | Inr txn \<Rightarrow> Log (f txn) Return) = {}"
    for res :: "error + txresponse" and f
    by (cases res) simp_all
  have k1: "calls (case est of
            Inl e \<Rightarrow> Throw e
          | Inr gasLimit \<Rightarrow>
              if gasLimit \<le> 0 then Throw (Error ''Unable to simulation gas for transaction.'')
              else
                Log ''sending tx ...''
                  (Log (''data: '' @ d)
                     (SendTransaction signer ?t
                        (\<lambda>res.
                           case res of
                             Inl e \<Rightarrow> Throw e
                           | Inr txn \<Rightarrow> Log (''tx response: '' @ stringify_tx E txn) Return))))
          \<subseteq> {SendTransactionReq signer ?t}" for est
    by (cases est) (simp_all add: k2)
  have w1: "within ?C ?st1"
    unfolding submitTx_after_price within_def
    using k1 by auto
  have w: "within ?C (run sched (start (submitTx E d signer)))"
    unfolding r by (rule run_within [OF w1])
  obtain evs where evs: "snd (run post ?st1) = snd ?st1 @ evs"
    using run_trace_prefix by blast
  have a: "take 2 (snd (run sched (start (submitTx E d signer)))) =
             [(0, Call GetGasPriceReq), (1, Call (EstimateGasReq signer ?t))]"
    unfolding r evs by (simp add: submitTx_after_price)
  have b: "\<forall>ev \<in> set (snd (run sched (start (submitTx E d signer)))). \<forall>w t.
            snd ev = Call (EstimateGasReq w t) \<or> snd ev = Call (SendTransactionReq w t) \<longrightarrow>
            w = signer \<and> t = ?t"
  proof (intro ballI allI impI)
    fix ev w t
    assume ev: "ev \<in> set (snd (run sched (start (submitTx E d signer))))"
      and c: "snd ev = Call (EstimateGasReq w t) \<or> snd ev = Call (SendTransactionReq w t)"
    obtain j a where ja: "ev = (j, a)" by (cases ev)
    from c ja ev w have "EstimateGasReq w t \<in> ?C \<or> SendTransactionReq w t \<in> ?C"
      unfolding within_def by auto
    then show "w = signer \<and> t = ?t" by auto
  qed
  have c: "snd (run [(0, GasPrice (Inr price)), (0, GasPrice (Inr price2))]
                (start (then_do (submitTx E d signer) (submitTx E d2 signer)))) =
           [(0, Call GetGasPriceReq), (1, Call (EstimateGasReq signer ?t)),
            (0, Call GetGasPriceReq),
            (2, Call (EstimateGasReq signer
                        \<lparr>to = contractAddress, data = d2, gasPrice = price2\<rparr>))]"
    by (simp add: start_def submitTx_def Let_def ended_def)
  show ?thesis using a b c by blast
qed

theorem submitTx_request_witness:
  "take 2 (snd (run [(1, GasEstimate (Inr 3)), (0, GasPrice (Inr 5)), (1, GasEstimate (Inr 21000))]
                  (start (submitTx test_lib ''0xab'' test_wallet)))) =
           [(0, Call GetGasPriceReq),
            (1, Call (EstimateGasReq test_wallet
                        \<lparr>to = contractAddress, data = ''0xab'', gasPrice = 5\<rparr>))] \<and>
   (1, Call (SendTransactionReq test_wallet
               \<lparr>to = contractAddress, data = ''0xab'', gasPrice = 5\<rparr>))
     \<in> set (snd (run [(1, GasEstimate (Inr 3)), (0, GasPrice (Inr 5)),
                      (1, GasEstimate (Inr 21000))]
                  (start (submitTx test_lib ''0xab'' test_wallet))))"
proof -
  have h: "main_replies [(1, GasEstimate (Inr 3)), (0, GasPrice (Inr 5)),
                         (1, GasEstimate (Inr 21000))] = GasPrice (Inr 5) # []"
    by (simp add: main_replies_def)
  have "(1, Call (SendTransactionReq test_wallet
               \<lparr>to = contractAddress, data = ''0xab'', gasPrice = 5\<rparr>))
     \<in> set (snd (run [(1, GasEstimate (Inr 3)), (0, GasPrice (Inr 5)),
                      (1, GasEstimate (Inr 21000))]
                  (start (submitTx test_lib ''0xab'' test_wallet))))"
    by (simp add: start_def submitTx_def Let_def ended_def)
  then show ?thesis
    using submitTx_request [OF h, of test_lib "''0xab''" test_wallet] by blast
qed

text \<open>C3. An error of the gas estimation, or of the broadcast, stays in the detached
  chain: thread 1 ends rejected with it, while the promise of \<open>submitTx\<close> (thread 0) is
  fulfilled, so the caller never receives the error.\<close>

theorem estimate_error_not_propagated:
  "run [(0, GasPrice (Inr 5)), (1, GasEstimate (Inl (Error ''network down'')))]
       (start (submitTx test_lib ''0xab'' test_wallet)) =
     ([Return, Throw (Error ''network down'')],
      [(0, Call GetGasPriceReq),
       (1, Call (EstimateGasReq test_wallet
                   \<lparr>to = contractAddress, data = ''0xab'', gasPrice = 5\<rparr>))]) \<and>
   run [(0, GasPrice (Inr 5)), (1, GasEstimate (Inr 21000)),
        (1, Sent (Inl (Error ''network down'')))]
       (start (submitTx test_lib ''0xab'' test_wallet)) =
     ([Return, Throw (Error ''network down'')],
      [(0, Call GetGasPriceReq),
       (1, Call (EstimateGasReq test_wallet
                   \<lparr>to = contractAddress, data = ''0xab'', gasPrice = 5\<rparr>)),
       (1, Stdout ''sending tx ...''), (1, Stdout ''data: 0xab''),
       (1, Call (SendTransactionReq test_wallet
                   \<lparr>to = contractAddress, data = ''0xab'', gasPrice = 5\<rparr>))])"
  by (simp add: start_def submitTx_def Let_def ended_def)

text \<open>C4. With a simulated gas of 0 nothing is broadcast, and the detached chain is
  rejected with the error of the guard; but the promise of \<open>submitTx\<close> (thread 0) is
  fulfilled: the call itself does not fail.\<close>

theorem zero_gas_not_reported:
  "run [(0, GasPrice (Inr 5)), (1, GasEstimate (Inr 0))]
       (start (submitTx test_lib ''0xab'' test_wallet)) =
     ([Return, Throw (Error ''Unable to simulation gas for transaction.'')],
      [(0, Call GetGasPriceReq),
       (1, Call (EstimateGasReq test_wallet
                   \<lparr>to = contractAddress, data = ''0xab'', gasPrice = 5\<rparr>))])"
  by (simp add: start_def submitTx_def Let_def ended_def)





section \<open>The orchestrator\<close>

lemma foldr_then_append:
  "foldr then_do (xs @ ys) Return = then_do (foldr then_do xs Return) (foldr then_do ys Return)"
  by (induction xs) (simp_all add: then_do_assoc)

lemma exec_chain_fails:
  assumes "exec (foldr then_do pre Return) rs1 = (as1, Return, [])"
    and "exec s rs2 = (as2, Throw e, [])"
  shows "exec (catch_with (foldr then_do (pre @ s # post) Return) h) (rs1 @ rs2 @ extra) =
           (case exec (h e) extra of (as3, out, rest) \<Rightarrow> (as1 @ as2 @ as3, out, rest))"
proof -
  have a: "exec (foldr then_do pre Return) (rs1 @ rs2 @ extra) = (as1, Return, rs2 @ extra)"
    using exec_more [OF assms(1)] by simp
  have b: "exec s (rs2 @ extra) = (as2, Throw e, extra)"
    using exec_more [OF assms(2)] by simp
  have c: "exec (then_do s (foldr then_do post Return)) (rs2 @ extra) = (as2, Throw e, extra)"
    by (rule exec_then_Throw [OF b])
  have d: "exec (foldr then_do (pre @ s # post) Return) (rs1 @ rs2 @ extra) =
             (as1 @ as2, Throw e, extra)"
    using exec_then_Return [OF a, of "then_do s (foldr then_do post Return)"] c
    by (simp add: foldr_then_append del: foldr_append)
  show ?thesis
    using exec_catch_Throw [OF d, of h] by (simp add: split_beta)
qed

lemma exec_chain_Throw:
  assumes "exec (foldr then_do pre Return) rs1 = (as1, Return, [])"
    and "exec s rs2 = (as2, Throw e, [])"
  shows "exec (foldr then_do (pre @ s # post) Return) (rs1 @ rs2 @ extra) =
           (as1 @ as2, Throw e, extra)"
proof -
  have a: "exec (foldr then_do pre Return) (rs1 @ rs2 @ extra) = (as1, Return, rs2 @ extra)"
    using exec_more [OF assms(1)] by simp
  have b: "exec s (rs2 @ extra) = (as2, Throw e, extra)"
    using exec_more [OF assms(2)] by simp
  have c: "exec (then_do s (foldr then_do post Return)) (rs2 @ extra) = (as2, Throw e, extra)"
    by (rule exec_then_Throw [OF b])
  show ?thesis
    using exec_then_Return [OF a, of "then_do s (foldr then_do post Return)"] c
    by (simp add: foldr_then_append del: foldr_append)
qed

subsection \<open>Cutting the script after a rejected step\<close>

lemma exec_suspended_Throw:
  "suspended a \<Longrightarrow> exec a (r # rs) = (as, Throw e, rest) \<Longrightarrow>
   \<exists>x as'. resume a r = Some x \<and> exec x rs = (as', Throw e, rest)"
  by (cases a; cases r) (auto simp: split_beta prod_eq_iff)

lemma exec_suspended_Nil: "suspended a \<Longrightarrow> exec a [] \<noteq> (as, Throw e, rest)"
  by (cases a) auto

lemma resume_cut:
  "suspended a \<Longrightarrow> resume a r = Some x \<Longrightarrow>
   resume (catch_with (then_do a B) h) r = Some (catch_with (then_do x B) h) \<and>
   resume (catch_with a h) r = Some (catch_with x h)"
  by (cases a; cases r) auto

lemma resume_cut_None:
  "suspended a \<Longrightarrow> resume a r = None \<Longrightarrow>
   resume (catch_with (then_do a B) h) r = None \<and> resume (catch_with a h) r = None"
  by (cases a; cases r) auto

lemma advance_cut:
  "exec x rs = (as, Throw e, rest) \<Longrightarrow>
   fst (advance i n (catch_with (then_do x B) h)) = fst (advance i n (catch_with x h)) \<and>
   fst (snd (advance i n (catch_with (then_do x B) h))) =
     fst (snd (advance i n (catch_with x h))) \<and>
   cut_rel B h rs (snd (snd (advance i n (catch_with (then_do x B) h))))
                  (snd (snd (advance i n (catch_with x h))))"
proof (induction x arbitrary: i n as)
  case Return
  then show ?case by simp
next
  case (Throw e')
  then show ?case by (simp add: cut_rel_def)
next
  case (Log s x)
  from Log.prems obtain as' where "exec x rs = (as', Throw e, rest)"
    by (auto simp: split_beta prod_eq_iff)
  from Log.IH [OF this, of i n] show ?case by (simp add: split_beta)
next
  case (LogError s x)
  from LogError.prems obtain as' where "exec x rs = (as', Throw e, rest)"
    by (auto simp: split_beta prod_eq_iff)
  from LogError.IH [OF this, of i n] show ?case by (simp add: split_beta)
next
  case (GetGasPrice k)
  have "cut_rel B h rs (catch_with (then_do (GetGasPrice k) B) h) (catch_with (GetGasPrice k) h)"
    unfolding cut_rel_def using GetGasPrice.prems
    by (intro disjI2 exI [of _ "GetGasPrice k"] exI [of _ as] exI [of _ e] exI [of _ rest]) simp
  then show ?case by simp
next
  case (EstimateGas w t k)
  have "cut_rel B h rs (catch_with (then_do (EstimateGas w t k) B) h)
          (catch_with (EstimateGas w t k) h)"
    unfolding cut_rel_def using EstimateGas.prems
    by (intro disjI2 exI [of _ "EstimateGas w t k"] exI [of _ as] exI [of _ e] exI [of _ rest])
      simp
  then show ?case by simp
next
  case (SendTransaction w t k)
  have "cut_rel B h rs (catch_with (then_do (SendTransaction w t k) B) h)
          (catch_with (SendTransaction w t k) h)"
    unfolding cut_rel_def using SendTransaction.prems
    by (intro disjI2 exI [of _ "SendTransaction w t k"] exI [of _ as] exI [of _ e]
        exI [of _ rest]) simp
  then show ?case by simp
next
  case (Detach d x)
  from Detach.prems have "exec x rs = (as, Throw e, rest)" by simp
  from Detach.IH(2) [OF this, of i "Suc n + length (fst (snd (advance n (Suc n) d)))"]
  show ?case by (simp add: split_beta)
qed

lemma run_cut:
  "cut_rel B h (main_replies sched) p0 p0' \<Longrightarrow>
   snd (run sched (p0 # ps, tr)) = snd (run sched (p0' # ps, tr))"
proof (induction sched arbitrary: p0 p0' ps tr)
  case Nil
  then show ?case by simp
next
  case (Cons l sched)
  obtain i r where l: "l = (i, r)" by (cases l)
  have e: "ended (p0 # ps, tr) = ended (p0' # ps, tr)" by (simp add: ended_def)
  show ?case
  proof (cases "ended (p0 # ps, tr)")
    case True
    then have "ended (p0' # ps, tr)" using e by simp
    from run_ended [OF True, of "l # sched"] run_ended [OF this, of "l # sched"]
    show ?thesis by simp
  next
    case alive: False
    show ?thesis
    proof (cases i)
      case (Suc j)
      have m: "main_replies (l # sched) = main_replies sched"
        using l Suc by (simp add: main_replies_def)
      show ?thesis
      proof (cases "j < length ps \<and> resume (ps ! j) r \<noteq> None")
        case False
        then have "step l (p0 # ps, tr) = (p0 # ps, tr)" "step l (p0' # ps, tr) = (p0' # ps, tr)"
          using l Suc by (auto split: option.splits)
        then show ?thesis using Cons.IH [of p0 p0' ps tr] Cons.prems m by simp
      next
        case True
        then obtain q where q: "resume (ps ! j) r = Some q" and j: "j < length ps" by auto
        obtain evs kids res where adv: "advance i (Suc (length ps)) q = (evs, kids, res)"
          by (cases "advance i (Suc (length ps)) q") auto
        have "step l (p0 # ps, tr) = (p0 # ps[j := res] @ kids, tr @ evs)"
          "step l (p0' # ps, tr) = (p0' # ps[j := res] @ kids, tr @ evs)"
          using l Suc q j adv alive e by simp_all
        then show ?thesis
          using Cons.IH [of p0 p0' "ps[j := res] @ kids" "tr @ evs"] Cons.prems m by simp
      qed
    next
      case 0
      have m: "main_replies (l # sched) = r # main_replies sched"
        using l 0 by (simp add: main_replies_def)
      from Cons.prems consider (same) "p0 = p0'" |
        (cut) a as e' rest where "p0 = catch_with (then_do a B) h" "p0' = catch_with a h"
          "suspended a" "exec a (main_replies (l # sched)) = (as, Throw e', rest)"
        unfolding cut_rel_def by blast
      then show ?thesis
      proof cases
        case same
        then show ?thesis by simp
      next
        case cut
        from exec_suspended_Throw [OF cut(3) cut(4) [unfolded m]] obtain x as' where
          x: "resume a r = Some x" and ex: "exec x (main_replies sched) = (as', Throw e', rest)"
          by blast
        note rc = resume_cut [OF cut(3) x, of B h]
        note ac = advance_cut [OF ex, of 0 "Suc (length ps)" B h]
        obtain evs kids res where
          adv: "advance 0 (Suc (length ps)) (catch_with (then_do x B) h) = (evs, kids, res)"
          by (cases "advance 0 (Suc (length ps)) (catch_with (then_do x B) h)") auto
        obtain evs' kids' res' where
          adv': "advance 0 (Suc (length ps)) (catch_with x h) = (evs', kids', res')"
          by (cases "advance 0 (Suc (length ps)) (catch_with x h)") auto
        from ac adv adv' have eq: "evs = evs'" "kids = kids'"
          and rel: "cut_rel B h (main_replies sched) res res'" by simp_all
        have "step l (p0 # ps, tr) = (res # ps @ kids, tr @ evs)"
          using l 0 cut(1) rc adv alive by simp
        moreover have "step l (p0' # ps, tr) = (res' # ps @ kids, tr @ evs)"
          using l 0 cut(2) rc adv' alive e eq by simp
        ultimately show ?thesis
          using Cons.IH [OF rel, of "ps @ kids" "tr @ evs"] by simp
      qed
    qed
  qed
qed

lemma cut_trace:
  assumes "exec A (main_replies sched) = (as, Throw e, rest)"
  shows "snd (run sched (start (catch_with (then_do A B) h))) =
         snd (run sched (start (catch_with A h)))"
proof -
  note ac = advance_cut [OF assms, of 0 1 B h]
  obtain evs kids res where
    adv: "advance 0 1 (catch_with (then_do A B) h) = (evs, kids, res)"
    by (cases "advance 0 1 (catch_with (then_do A B) h)") auto
  obtain evs' kids' res' where
    adv': "advance 0 1 (catch_with A h) = (evs', kids', res')"
    by (cases "advance 0 1 (catch_with A h)") auto
  from ac adv adv' have eq: "evs = evs'" "kids = kids'"
    and rel: "cut_rel B h (main_replies sched) res res'" by simp_all
  from run_cut [OF rel, of kids evs] show ?thesis
    using adv adv' eq by (simp add: start_def)
qed

lemma test_newWallet: "newWallet test_lib (hexlify (replicate 32 1)) = Inr test_wallet"
  by (simp add: test_lib_def test_wallet_def)

text \<open>C2. Let the first \<open>k\<close> challenge steps be fulfilled and the next one be rejected
  with \<open>e\<close>, the process being alive when thread 0 has received the answers that lead
  there (\<open>sched1\<close>); whatever is answered to the detached chains meanwhile and whatever
  comes later (\<open>sched2\<close>). Then the awaited path shows the events of those steps followed
  by one line on the error stream with the details of \<open>e\<close>, and is settled; in the
  whole trace, all threads together, that line is the only one on the error stream; and
  the whole trace is, event for event and thread for thread, the trace of the script cut
  after the failing step: no later step has run anywhere. A step whose simulation or
  broadcast fails is not rejected (C3, C4) and is not covered. The witness is the case
  of step 2 failing: the run is that of challenges 1 and 2 alone.\<close>

theorem main_halts_on_rejection:
  assumes "newWallet E key = Inr signer"
    and "steps = [challenge1 E signer, challenge2 E signer, challenge3a E signer,
                  challenge3b E signer]"
    and "k < 4"
    and "exec (foldr then_do (take k steps) Return) rs1 = (as1, Return, [])"
    and "exec (steps ! k) rs2 = (as2, Throw e, [])"
    and "main_replies sched1 = rs1 @ rs2"
    and "\<not> ended (run sched1 (start (main E (Some key))))"
  shows "main_events (run (sched1 @ sched2) (start (main E (Some key)))) =
           as1 @ as2 @
           [Stderr (''An error occurred while completing challenges. Details: ''
                    @ stringify_err E e)] \<and>
         main_thread (run (sched1 @ sched2) (start (main E (Some key)))) = Return \<and>
         filter is_stderr (map snd (snd (run (sched1 @ sched2) (start (main E (Some key)))))) =
           [Stderr (''An error occurred while completing challenges. Details: ''
                    @ stringify_err E e)] \<and>
         snd (run (sched1 @ sched2) (start (main E (Some key)))) =
           snd (run (sched1 @ sched2)
                  (start (catch_with (foldr then_do (take (Suc k) steps) Return)
                            (\<lambda>err. LogError
                               (''An error occurred while completing challenges. Details: ''
                                @ stringify_err E err) Return))))"
proof -
  let ?msg = "''An error occurred while completing challenges. Details: '' @ stringify_err E e"
  let ?M = "main E (Some key)"
  have len: "k < length steps" using assms(2,3) by simp
  have split: "steps = take k steps @ steps ! k # drop (Suc k) steps"
    using len by (simp add: id_take_nth_drop)
  have tk: "take (Suc k) steps = take k steps @ steps ! k # []"
    using len by (simp add: take_Suc_conv_app_nth)
  have m: "?M = catch_with (foldr then_do steps Return) (report E)"
    using assms(1,2) by (simp add: main_def then_do_assoc then_do_Return)
  have q: "\<forall>p \<in> set steps. quiet p"
    using assms(2) by (simp add: quiet_challenge1 quiet_challenge2 quiet_challenge3a
        quiet_challenge3b)
  \<comment> \<open>the awaited path\<close>
  have "exec (catch_with (foldr then_do (take k steps @ steps ! k # drop (Suc k) steps) Return)
                (report E)) (rs1 @ rs2 @ []) =
          (case exec (report E e) [] of (as3, out, rest) \<Rightarrow> (as1 @ as2 @ as3, out, rest))"
    by (rule exec_chain_fails [OF assms(4,5)])
  then have ex: "exec ?M (main_replies sched1) = (as1 @ as2 @ [Stderr ?msg], Return, [])"
    using split m assms(6) by (simp add: report_def)
  from run_exec [OF ex _ assms(7)]
  have v1: "main_events (run sched1 (start ?M)) = as1 @ as2 @ [Stderr ?msg]"
    and t1: "main_thread (run sched1 (start ?M)) = Return" by simp_all
  have ne: "fst (run sched1 (start ?M)) \<noteq> []"
    using run_view [of "start ?M" sched1] start_view [of ?M] assms(7) by simp
  have "settled (hd (fst (run sched1 (start ?M))))" using t1 by (simp add: main_thread_def)
  from run_main_settled [OF ne this, of sched2]
  have a: "main_events (run (sched1 @ sched2) (start ?M)) = as1 @ as2 @ [Stderr ?msg]"
    and b: "main_thread (run (sched1 @ sched2) (start ?M)) = Return"
    using v1 t1 by (simp_all add: run_append)
  \<comment> \<open>the error stream\<close>
  have "kids_quiet (foldr then_do steps Return)" using q by (simp add: quiet_foldr quiet_kids)
  then have "kids_quiet ?M" unfolding m by (rule kids_quiet_catch) (simp add: report_def)
  then have "hushed (run (sched1 @ sched2) (start ?M))"
    by (intro run_hushed start_hushed)
  from hushed_stderr [OF this]
  have f: "filter is_stderr (map snd (snd (run (sched1 @ sched2) (start ?M)))) =
           filter is_stderr (as1 @ as2 @ [Stderr ?msg])" using a by simp
  have "quiet (foldr then_do (take k steps) Return)"
    using q by (intro quiet_foldr) (auto dest: in_set_takeD)
  from exec_quiet [OF this, of rs1] assms(4) have n1: "filter is_stderr as1 = []"
    by (simp add: filter_empty_conv)
  have "quiet (steps ! k)" using q len by simp
  from exec_quiet [OF this, of rs2] assms(5) have n2: "filter is_stderr as2 = []"
    by (simp add: filter_empty_conv)
  have c: "filter is_stderr (map snd (snd (run (sched1 @ sched2) (start ?M)))) = [Stderr ?msg]"
    using f n1 n2 by simp
  \<comment> \<open>the steps after the failing one\<close>
  have A: "exec (foldr then_do (take (Suc k) steps) Return) (main_replies (sched1 @ sched2)) =
             (as1 @ as2, Throw e, main_replies sched2)"
    using exec_chain_Throw [OF assms(4,5), of "[]" "main_replies sched2"] assms(6)
    by (simp add: tk main_replies_def)
  have "foldr then_do steps Return =
          then_do (foldr then_do (take (Suc k) steps) Return)
                  (foldr then_do (drop (Suc k) steps) Return)"
    using foldr_then_append [of "take (Suc k) steps" "drop (Suc k) steps"] by simp
  then have m': "?M = catch_with (then_do (foldr then_do (take (Suc k) steps) Return)
                  (foldr then_do (drop (Suc k) steps) Return)) (report E)"
    using m by simp
  have r: "report E = (\<lambda>err. LogError
                               (''An error occurred while completing challenges. Details: ''
                                @ stringify_err E err) Return)"
    by (rule ext) (simp add: report_def)
  have d: "snd (run (sched1 @ sched2) (start ?M)) =
           snd (run (sched1 @ sched2)
                  (start (catch_with (foldr then_do (take (Suc k) steps) Return)
                            (\<lambda>err. LogError
                               (''An error occurred while completing challenges. Details: ''
                                @ stringify_err E err) Return))))"
    unfolding m' using cut_trace [OF A, of "foldr then_do (drop (Suc k) steps) Return" "report E"]
    by (simp only: r)
  show ?thesis using a b c d by blast
qed

theorem main_halts_on_rejection_witness:
  "main_events
     (run ([(0, GasPrice (Inr 5)), (1, GasEstimate (Inr 21000)),
            (0, GasPrice (Inl (Error ''rate limited'')))] @
           [(1, Sent (Inr (TxResponse ''0xbeef'')))])
        (start (main test_lib (Some (hexlify (replicate 32 1)))))) =
     [Stdout ''solving challenge 1 with answer: faucet'', Call GetGasPriceReq,
      Stdout (''challenge 1 completed.'' @ [CHR 0x0A])] @
     [Stdout ''solving challenge 2 with answer: The Merge'',
      Stdout (CHR 0x09 # ''signature: '' @ joinSignature (1, 2, True)), Call GetGasPriceReq] @
     [Stderr (''An error occurred while completing challenges. Details: ''
              @ stringify_err test_lib (Error ''rate limited''))] \<and>
   main_thread
     (run ([(0, GasPrice (Inr 5)), (1, GasEstimate (Inr 21000)),
            (0, GasPrice (Inl (Error ''rate limited'')))] @
           [(1, Sent (Inr (TxResponse ''0xbeef'')))])
        (start (main test_lib (Some (hexlify (replicate 32 1)))))) = Return \<and>
   filter is_stderr (map snd (snd
     (run ([(0, GasPrice (Inr 5)), (1, GasEstimate (Inr 21000)),
            (0, GasPrice (Inl (Error ''rate limited'')))] @
           [(1, Sent (Inr (TxResponse ''0xbeef'')))])
        (start (main test_lib (Some (hexlify (replicate 32 1)))))))) =
     [Stderr (''An error occurred while completing challenges. Details: ''
              @ stringify_err test_lib (Error ''rate limited''))] \<and>
   snd (run ([(0, GasPrice (Inr 5)), (1, GasEstimate (Inr 21000)),
            (0, GasPrice (Inl (Error ''rate limited'')))] @
           [(1, Sent (Inr (TxResponse ''0xbeef'')))])
        (start (main test_lib (Some (hexlify (replicate 32 1)))))) =
   snd (run ([(0, GasPrice (Inr 5)), (1, GasEstimate (Inr 21000)),
            (0, GasPrice (Inl (Error ''rate limited'')))] @
           [(1, Sent (Inr (TxResponse ''0xbeef'')))])
        (start (catch_with
           (foldr then_do
              (take (Suc 1) [challenge1 test_lib test_wallet, challenge2 test_lib test_wallet,
                             challenge3a test_lib test_wallet, challenge3b test_lib test_wallet])
              Return)
           (\<lambda>err. LogError (''An error occurred while completing challenges. Details: ''
                            @ stringify_err test_lib err) Return))))"
proof -
  have h3: "(1::nat) < 4" by simp
  obtain d1 where d1: "generateFunctionData test_lib ''solveChallenge1'' [Str ''faucet''] = Inr d1"
    using encode_is_Inr(1) by blast
  have h4: "exec (foldr then_do (take 1 [challenge1 test_lib test_wallet,
                challenge2 test_lib test_wallet, challenge3a test_lib test_wallet,
                challenge3b test_lib test_wallet]) Return) [GasPrice (Inr 5)] =
            ([Stdout ''solving challenge 1 with answer: faucet'', Call GetGasPriceReq,
              Stdout (''challenge 1 completed.'' @ [CHR 0x0A])], Return, [])"
    by (simp add: challenge1_def d1 submitTx_def Let_def)
  obtain d2 where d2: "generateFunctionData test_lib ''solveChallenge2''
      [Str ''The Merge'', Bytes (be_bytes 32 (unat (1 :: 256 word)) @ be_bytes 32 (unat (2 :: 256 word)) @ [0x1c])] = Inr d2"
    using encode_is_Inr(2) by blast
  have h5: "exec ([challenge1 test_lib test_wallet,
                challenge2 test_lib test_wallet, challenge3a test_lib test_wallet,
                challenge3b test_lib test_wallet] ! 1) [GasPrice (Inl (Error ''rate limited''))] =
            ([Stdout ''solving challenge 2 with answer: The Merge'',
              Stdout (CHR 0x09 # ''signature: '' @ joinSignature (1, 2, True)),
              Call GetGasPriceReq], Throw (Error ''rate limited''), [])"
    using d2
    by (simp add: challenge2_def generateSignature_test arrayify_joinSignature submitTx_def Let_def)
  have h6: "main_replies [(0, GasPrice (Inr 5)), (1, GasEstimate (Inr 21000)),
           (0, GasPrice (Inl (Error ''rate limited'')))]
           = [GasPrice (Inr 5)] @ [GasPrice (Inl (Error ''rate limited''))]"
    by (simp add: main_replies_def)
  have h7: "\<not> ended (run [(0, GasPrice (Inr 5)), (1, GasEstimate (Inr 21000)),
           (0, GasPrice (Inl (Error ''rate limited'')))]
           (start (main test_lib (Some (hexlify (replicate 32 1))))))"
    using d1 d2
    by (simp add: main_def test_newWallet start_def challenge1_def challenge2_def
        submitTx_def Let_def generateSignature_test arrayify_joinSignature ended_def report_def)
  show ?thesis
    by (rule main_halts_on_rejection [OF test_newWallet refl h3 h4 h5 h6 h7])
qed

text \<open>C1. After the only answer of the node so far, the gas price of challenge 1, the
  script has printed that challenge 1 is completed, has started challenge 2, signed its
  answer and asked for the next gas price, while the simulation of challenge 1 is still
  waiting for its answer (thread 1 is not settled) and nothing has been broadcast.\<close>

theorem challenge2_starts_before_estimate:
  "snd (run [(0, GasPrice (Inr 5))] (start (main test_lib (Some (hexlify (replicate 32 1)))))) =
     [(0, Stdout ''solving challenge 1 with answer: faucet''),
      (0, Call GetGasPriceReq),
      (1, Call (EstimateGasReq test_wallet
         \<lparr>to = contractAddress,
          data = hexlify (take 4 (keccak test_lib (toUtf8Bytes ''solveChallenge1(string)''))
                   @ (replicate 31 0 @ [0x20])
                   @ (replicate 31 0 @ [0x06])
                   @ [0x66, 0x61, 0x75, 0x63, 0x65, 0x74] @ replicate 26 0),
          gasPrice = 5\<rparr>)),
      (0, Stdout (''challenge 1 completed.'' @ [CHR 0x0A])),
      (0, Stdout ''solving challenge 2 with answer: The Merge''),
      (0, Stdout (CHR 0x09 # ''signature: '' @ joinSignature (1, 2, True))),
      (0, Call GetGasPriceReq)] \<and>
   \<not> settled (fst (run [(0, GasPrice (Inr 5))]
                     (start (main test_lib (Some (hexlify (replicate 32 1)))))) ! 1)"
proof -
  obtain d2 where d2: "generateFunctionData test_lib ''solveChallenge2''
      [Str ''The Merge'', Bytes (be_bytes 32 (unat (1 :: 256 word)) @ be_bytes 32 (unat (2 :: 256 word)) @ [0x1c])] = Inr d2"
    using encode_is_Inr(2) by blast
  show ?thesis
    using d2
    by (simp add: main_def test_newWallet start_def challenge1_def challenge2_def encode_faucet
        submitTx_def Let_def generateSignature_test arrayify_joinSignature ended_def)
qed


section \<open>The two calls of challenge 3\<close>

lemma utf8_eip: "toUtf8Bytes ''EIP-4844'' = [0x45, 0x49, 0x50, 0x2d, 0x34, 0x38, 0x34, 0x34]"
  by (simp add: toUtf8Bytes_def utf8Char_def)

lemma encode_challenge3:
  "generateFunctionData E ''solveChallenge3'' [Str ''EIP-4844'', Address x, Bytes b] =
     Inr (hexlify (take 4 (keccak E (toUtf8Bytes ''solveChallenge3(string,address,bytes)''))
                   @ be_bytes 32 96 @ be_bytes 32 (unat x) @ be_bytes 32 160
                   @ be_bytes 32 8 @ toUtf8Bytes ''EIP-4844'' @ replicate 24 0
                   @ be_bytes 32 (length b) @ b @ replicate ((32 - length b mod 32) mod 32) 0))"
proof -
  have l8: "length (toUtf8Bytes ''EIP-4844'') = 8" by (simp add: utf8_eip)
  show ?thesis
    by (simp add: generateFunctionData_def encodeFunctionData_def Bounty_def selector_def
        canonical_def abi_pack_def encode_dynamic_def pad32_def length_be_bytes l8)
qed

lemma run_challenge_sent:
  assumes "0 < gas"
  shows "snd (run [(0, GasPrice (Inr price)), (1, GasEstimate (Inr gas)), (1, Sent (Inr txn))]
          (start (then_do (submitTx E d signer) (Log done Return)))) =
     [(0, Call GetGasPriceReq),
      (1, Call (EstimateGasReq signer \<lparr>to = contractAddress, data = d, gasPrice = price\<rparr>)),
      (0, Stdout done),
      (1, Stdout ''sending tx ...''),
      (1, Stdout (''data: '' @ d)),
      (1, Call (SendTransactionReq signer
                  \<lparr>to = contractAddress, data = d, gasPrice = price\<rparr>)),
      (1, Stdout (''tx response: '' @ stringify_tx E txn))]"
  using assms by (simp add: start_def submitTx_def Let_def ended_def)

lemma run_Log:
  "snd (run sched (start (Log s p))) = (0, Stdout s) # snd (run sched (start p)) \<and>
   fst (run sched (start (Log s p))) = fst (run sched (start p))"
proof -
  have "run sched (pool, ev # tr) = (fst (run sched (pool, tr)), ev # snd (run sched (pool, tr)))"
    for pool tr ev
  proof (induction sched arbitrary: pool tr)
    case (Cons l sched)
    obtain i r where l: "l = (i, r)" by (cases l)
    have "step l (pool, ev # tr) = (fst (step l (pool, tr)), ev # snd (step l (pool, tr)))"
      using l by (simp add: ended_def split_beta split: option.splits)
    then show ?case using Cons.IH [of "fst (step l (pool, tr))" "snd (step l (pool, tr))"]
      by simp
  qed simp
  then show ?thesis by (simp add: start_def split_beta)
qed

text \<open>C8. With a 32-byte hash function and a positive simulated gas, challenges 3a and 3b
  each simulate and then broadcast a transaction to the contract whose data is the call
  of \<open>solveChallenge3(string,address,bytes)\<close>: the selector, the answer \<open>EIP-4844\<close>,
  the address of the signer, and the signature. 3a passes the 65 bytes of the extended
  signature of the answer, 3b the 64 bytes of the compact form of the same signature; the
  two byte sequences differ, and so do the two call data.\<close>

theorem challenge3_two_calls:
  assumes "\<forall>bs. length (keccak E bs) = 32" and "0 < gas"
  shows "\<exists>sg ext parts cmp d3a d3b.
           generateSignature E ''EIP-4844'' signer = Inr sg \<and>
           sg = joinSignature (ecdsa E (privateKey signer)
                  (keccak E (toUtf8Bytes messagePrefix @ toUtf8Bytes ''32''
                             @ keccak E (toUtf8Bytes ''EIP-4844'')))) \<and>
           arrayify sg = Inr ext \<and> length ext = 65 \<and>
           splitSignature sg = Inr parts \<and>
           arrayify (compact parts) = Inr cmp \<and> length cmp = 64 \<and>
           cmp = take 32 ext @ (if ext ! 64 = 0x1c
                                then (take 32 (drop 32 ext))[0 := ext ! 32 OR 0x80]
                                else take 32 (drop 32 ext)) \<and>
           cmp \<noteq> ext \<and>
           d3a = hexlify (take 4 (keccak E (toUtf8Bytes ''solveChallenge3(string,address,bytes)''))
                   @ be_bytes 32 96 @ be_bytes 32 (unat (getAddress E signer)) @ be_bytes 32 160
                   @ be_bytes 32 8 @ toUtf8Bytes ''EIP-4844'' @ replicate 24 0
                   @ be_bytes 32 65 @ ext @ replicate 31 0) \<and>
           d3b = hexlify (take 4 (keccak E (toUtf8Bytes ''solveChallenge3(string,address,bytes)''))
                   @ be_bytes 32 96 @ be_bytes 32 (unat (getAddress E signer)) @ be_bytes 32 160
                   @ be_bytes 32 8 @ toUtf8Bytes ''EIP-4844'' @ replicate 24 0
                   @ be_bytes 32 64 @ cmp) \<and>
           d3a \<noteq> d3b \<and>
           snd (run [(0, GasPrice (Inr price)), (1, GasEstimate (Inr gas)), (1, Sent (Inr txn))]
                  (start (challenge3a E signer))) =
             [(0, Stdout ''solving challenge 3a with answer: EIP-4844''),
              (0, Stdout (CHR 0x09 # ''signature: '' @ sg)),
              (0, Call GetGasPriceReq),
              (1, Call (EstimateGasReq signer
                          \<lparr>to = contractAddress, data = d3a, gasPrice = price\<rparr>)),
              (0, Stdout (''challenge 3a completed.'' @ [CHR 0x0A])),
              (1, Stdout ''sending tx ...''),
              (1, Stdout (''data: '' @ d3a)),
              (1, Call (SendTransactionReq signer
                          \<lparr>to = contractAddress, data = d3a, gasPrice = price\<rparr>)),
              (1, Stdout (''tx response: '' @ stringify_tx E txn))] \<and>
           snd (run [(0, GasPrice (Inr price)), (1, GasEstimate (Inr gas)), (1, Sent (Inr txn))]
                  (start (challenge3b E signer))) =
             [(0, Stdout ''solving challenge 3b with answer: EIP-4844''),
              (0, Stdout (CHR 0x09 # ''signature: '' @ sg)),
              (0, Stdout (CHR 0x09 # ''compact signature: '' @ compact parts)),
              (0, Call GetGasPriceReq),
              (1, Call (EstimateGasReq signer
                          \<lparr>to = contractAddress, data = d3b, gasPrice = price\<rparr>)),
              (0, Stdout (''challenge 3b completed.'' @ [CHR 0x0A])),
              (1, Stdout ''sending tx ...''),
              (1, Stdout (''data: '' @ d3b)),
              (1, Call (SendTransactionReq signer
                          \<lparr>to = contractAddress, data = d3b, gasPrice = price\<rparr>)),
              (1, Stdout (''tx response: '' @ stringify_tx E txn))]"
proof -
  let ?S = "[(0, GasPrice (Inr price)), (1, GasEstimate (Inr gas)), (1, Sent (Inr txn))]"
  let ?sel = "take 4 (keccak E (toUtf8Bytes ''solveChallenge3(string,address,bytes)''))"
  from signature_shape [OF assms(1), of "''EIP-4844''" signer] obtain r s p where
    g: "generateSignature E ''EIP-4844'' signer = Inr (joinSignature (r, s, p))" and
    e: "(r, s, p) = ecdsa E (privateKey signer)
                  (keccak E (toUtf8Bytes messagePrefix @ toUtf8Bytes ''32''
                             @ keccak E (toUtf8Bytes ''EIP-4844'')))"
    by blast
  let ?sg = "joinSignature (r, s, p)"
  from compact_of_join [of r s p] obtain ext parts cmp where
    ext: "arrayify ?sg = Inr ext" "length ext = 65" and
    parts: "splitSignature ?sg = Inr parts" and
    cmp: "arrayify (compact parts) = Inr cmp" "length cmp = 64" "cmp \<noteq> ext" and
    cf: "cmp = take 32 ext @ (if ext ! 64 = 0x1c
                                then (take 32 (drop 32 ext))[0 := ext ! 32 OR 0x80]
                                else take 32 (drop 32 ext))"
    by metis
  let ?d3a = "hexlify (?sel
                   @ be_bytes 32 96 @ be_bytes 32 (unat (getAddress E signer)) @ be_bytes 32 160
                   @ be_bytes 32 8 @ toUtf8Bytes ''EIP-4844'' @ replicate 24 0
                   @ be_bytes 32 65 @ ext @ replicate 31 0)"
  let ?d3b = "hexlify (?sel
                   @ be_bytes 32 96 @ be_bytes 32 (unat (getAddress E signer)) @ be_bytes 32 160
                   @ be_bytes 32 8 @ toUtf8Bytes ''EIP-4844'' @ replicate 24 0
                   @ be_bytes 32 64 @ cmp)"
  have d3a: "generateFunctionData E ''solveChallenge3''
             [Str ''EIP-4844'', Address (getAddress E signer), Bytes ext] = Inr ?d3a"
    using encode_challenge3 [of E "getAddress E signer" ext] ext(2) by simp
  have d3b: "generateFunctionData E ''solveChallenge3''
             [Str ''EIP-4844'', Address (getAddress E signer), Bytes cmp] = Inr ?d3b"
    using encode_challenge3 [of E "getAddress E signer" cmp] cmp(2) by simp
  have "length ?d3a \<noteq> length ?d3b"
    using ext(2) cmp(2) by (simp add: length_hexlify length_be_bytes)
  then have ne: "?d3a \<noteq> ?d3b" by auto
  have a: "challenge3a E signer =
      Log ''solving challenge 3a with answer: EIP-4844''
        (Log (CHR 0x09 # ''signature: '' @ ?sg)
           (then_do (submitTx E ?d3a signer)
              (Log (''challenge 3a completed.'' @ [CHR 0x0A]) Return)))"
    by (simp add: challenge3a_def Let_def g ext d3a)
  have b: "challenge3b E signer =
      Log ''solving challenge 3b with answer: EIP-4844''
        (Log (CHR 0x09 # ''signature: '' @ ?sg)
          (Log (CHR 0x09 # ''compact signature: '' @ compact parts)
           (then_do (submitTx E ?d3b signer)
              (Log (''challenge 3b completed.'' @ [CHR 0x0A]) Return))))"
    by (simp add: challenge3b_def Let_def g parts cmp d3b)
  have ra: "snd (run ?S (start (challenge3a E signer))) =
             [(0, Stdout ''solving challenge 3a with answer: EIP-4844''),
              (0, Stdout (CHR 0x09 # ''signature: '' @ ?sg)),
              (0, Call GetGasPriceReq),
              (1, Call (EstimateGasReq signer
                          \<lparr>to = contractAddress, data = ?d3a, gasPrice = price\<rparr>)),
              (0, Stdout (''challenge 3a completed.'' @ [CHR 0x0A])),
              (1, Stdout ''sending tx ...''),
              (1, Stdout (''data: '' @ ?d3a)),
              (1, Call (SendTransactionReq signer
                          \<lparr>to = contractAddress, data = ?d3a, gasPrice = price\<rparr>)),
              (1, Stdout (''tx response: '' @ stringify_tx E txn))]"
    unfolding a
    using run_challenge_sent [OF assms(2), of price txn E ?d3a signer
        "''challenge 3a completed.'' @ [CHR 0x0A]"]
    by (simp only: run_Log)
  have rb: "snd (run ?S (start (challenge3b E signer))) =
             [(0, Stdout ''solving challenge 3b with answer: EIP-4844''),
              (0, Stdout (CHR 0x09 # ''signature: '' @ ?sg)),
              (0, Stdout (CHR 0x09 # ''compact signature: '' @ compact parts)),
              (0, Call GetGasPriceReq),
              (1, Call (EstimateGasReq signer
                          \<lparr>to = contractAddress, data = ?d3b, gasPrice = price\<rparr>)),
              (0, Stdout (''challenge 3b completed.'' @ [CHR 0x0A])),
              (1, Stdout ''sending tx ...''),
              (1, Stdout (''data: '' @ ?d3b)),
              (1, Call (SendTransactionReq signer
                          \<lparr>to = contractAddress, data = ?d3b, gasPrice = price\<rparr>)),
              (1, Stdout (''tx response: '' @ stringify_tx E txn))]"
    unfolding b
    using run_challenge_sent [OF assms(2), of price txn E ?d3b signer
        "''challenge 3b completed.'' @ [CHR 0x0A]"]
    by (simp only: run_Log)
  have gs: "?sg = joinSignature (ecdsa E (privateKey signer)
                  (keccak E (toUtf8Bytes messagePrefix @ toUtf8Bytes ''32''
                             @ keccak E (toUtf8Bytes ''EIP-4844''))))"
    using e by simp
  show ?thesis
    using g gs ext parts cmp(1,2) cf cmp(3) ne ra rb by blast
qed

theorem challenge3_two_calls_witness:
  "\<exists>sg ext parts cmp d3a d3b.
           generateSignature test_lib ''EIP-4844'' test_wallet = Inr sg \<and>
           sg = joinSignature (ecdsa test_lib (privateKey test_wallet)
                  (keccak test_lib (toUtf8Bytes messagePrefix @ toUtf8Bytes ''32''
                             @ keccak test_lib (toUtf8Bytes ''EIP-4844'')))) \<and>
           arrayify sg = Inr ext \<and> length ext = 65 \<and>
           splitSignature sg = Inr parts \<and>
           arrayify (compact parts) = Inr cmp \<and> length cmp = 64 \<and>
           cmp = take 32 ext @ (if ext ! 64 = 0x1c
                                then (take 32 (drop 32 ext))[0 := ext ! 32 OR 0x80]
                                else take 32 (drop 32 ext)) \<and>
           cmp \<noteq> ext \<and>
           d3a = hexlify (take 4 (keccak test_lib
                                    (toUtf8Bytes ''solveChallenge3(string,address,bytes)''))
                   @ be_bytes 32 96 @ be_bytes 32 (unat (getAddress test_lib test_wallet))
                   @ be_bytes 32 160
                   @ be_bytes 32 8 @ toUtf8Bytes ''EIP-4844'' @ replicate 24 0
                   @ be_bytes 32 65 @ ext @ replicate 31 0) \<and>
           d3b = hexlify (take 4 (keccak test_lib
                                    (toUtf8Bytes ''solveChallenge3(string,address,bytes)''))
                   @ be_bytes 32 96 @ be_bytes 32 (unat (getAddress test_lib test_wallet))
                   @ be_bytes 32 160
                   @ be_bytes 32 8 @ toUtf8Bytes ''EIP-4844'' @ replicate 24 0
                   @ be_bytes 32 64 @ cmp) \<and>
           d3a \<noteq> d3b \<and>
           snd (run [(0, GasPrice (Inr 5)), (1, GasEstimate (Inr 21000)),
                     (1, Sent (Inr (TxResponse ''0xbeef'')))]
                  (start (challenge3a test_lib test_wallet))) =
             [(0, Stdout ''solving challenge 3a with answer: EIP-4844''),
              (0, Stdout (CHR 0x09 # ''signature: '' @ sg)),
              (0, Call GetGasPriceReq),
              (1, Call (EstimateGasReq test_wallet
                          \<lparr>to = contractAddress, data = d3a, gasPrice = 5\<rparr>)),
              (0, Stdout (''challenge 3a completed.'' @ [CHR 0x0A])),
              (1, Stdout ''sending tx ...''),
              (1, Stdout (''data: '' @ d3a)),
              (1, Call (SendTransactionReq test_wallet
                          \<lparr>to = contractAddress, data = d3a, gasPrice = 5\<rparr>)),
              (1, Stdout (''tx response: '' @ stringify_tx test_lib (TxResponse ''0xbeef'')))] \<and>
           snd (run [(0, GasPrice (Inr 5)), (1, GasEstimate (Inr 21000)),
                     (1, Sent (Inr (TxResponse ''0xbeef'')))]
                  (start (challenge3b test_lib test_wallet))) =
             [(0, Stdout ''solving challenge 3b with answer: EIP-4844''),
              (0, Stdout (CHR 0x09 # ''signature: '' @ sg)),
              (0, Stdout (CHR 0x09 # ''compact signature: '' @ compact parts)),
              (0, Call GetGasPriceReq),
              (1, Call (EstimateGasReq test_wallet
                          \<lparr>to = contractAddress, data = d3b, gasPrice = 5\<rparr>)),
              (0, Stdout (''challenge 3b completed.'' @ [CHR 0x0A])),
              (1, Stdout ''sending tx ...''),
              (1, Stdout (''data: '' @ d3b)),
              (1, Call (SendTransactionReq test_wallet
                          \<lparr>to = contractAddress, data = d3b, gasPrice = 5\<rparr>)),
              (1, Stdout (''tx response: '' @ stringify_tx test_lib (TxResponse ''0xbeef'')))]"
proof -
  have h: "(0::int) < 21000" by simp
  show ?thesis by (rule challenge3_two_calls [OF keccak_test_lib h])
qed

end
